theory Spec2Isabelle
  imports Complex_Main
begin

section \<open>JavaScript strings, arrays and numbers\<close>

text \<open>
  A JavaScript string is modelled as a \<^typ>\<open>string\<close>: a list of code units, here the
  code units 0..255. Line numbers, step counts and indices are the integers the code
  computes with; the values met here stay far below \<open>2 ^ 53\<close>, where a JavaScript
  number is an exact integer. The limit \<open>topK\<close> of a search reaches the database as the
  caller gives it, so it is a JavaScript number in full: negative, fractional, infinite or
  \<^verbatim>\<open>NaN\<close>.
\<close>

abbreviation LF :: char where
  "LF \<equiv> CHR 0x0A"

text \<open>\<^verbatim>\<open>`${n}`\<close> for a non-negative integer: its decimal digits.\<close>

definition digit_char :: "nat \<Rightarrow> char" where
  "digit_char d = ''0123456789'' ! d"

fun string_of_nat :: "nat \<Rightarrow> string" where
  "string_of_nat n =
     (if n < 10 then [digit_char n] else string_of_nat (n div 10) @ [digit_char (n mod 10)])"

declare string_of_nat.simps [simp del]

definition string_of_int :: "int \<Rightarrow> string" where
  "string_of_int i = (if i < 0 then ''-'' @ string_of_nat (nat (- i)) else string_of_nat (nat i))"

text \<open>\<^verbatim>\<open>s.split(c)\<close> for a one-character separator: never the empty array.\<close>

fun split_on :: "char \<Rightarrow> string \<Rightarrow> string list" where
  "split_on c [] = [[]]"
| "split_on c (x # xs) =
     (if x = c then [] # split_on c xs
      else (case split_on c xs of [] \<Rightarrow> [[x]] | l # ls \<Rightarrow> (x # l) # ls))"

text \<open>\<^verbatim>\<open>xs.join(sep)\<close>.\<close>

fun join :: "string \<Rightarrow> string list \<Rightarrow> string" where
  "join sep [] = []"
| "join sep [x] = x"
| "join sep (x # y # ys) = x @ sep @ join sep (y # ys)"

text \<open>
  \<^verbatim>\<open>xs.slice(a, b)\<close> on arrays and strings: a negative index counts from the end, and
  both ends are clamped to the length.
\<close>

definition js_slice :: "int \<Rightarrow> int \<Rightarrow> 'a list \<Rightarrow> 'a list" where
  "js_slice a b xs =
     (let n = int (length xs);
          k = (if a < 0 then max (n + a) 0 else min a n);
          f = (if b < 0 then max (n + b) 0 else min b n)
      in take (nat (f - k)) (drop (nat k) xs))"

text \<open>\<^verbatim>\<open>s.startsWith(p)\<close>.\<close>

definition startsWith :: "string \<Rightarrow> string \<Rightarrow> bool" where
  "startsWith s p = (take (length p) s = p)"

text \<open>\<^verbatim>\<open>s.includes(t)\<close>: \<open>t\<close> occurs in \<open>s\<close> as a substring.\<close>

fun str_includes :: "string \<Rightarrow> string \<Rightarrow> bool" where
  "str_includes [] t = (t = [])"
| "str_includes (x # xs) t = (startsWith (x # xs) t \<or> str_includes xs t)"

section \<open>Paths and the file system\<close>

text \<open>
  Node's POSIX \<^verbatim>\<open>path\<close> module. \<open>normalizeString\<close> walks the segments between
  slashes: empty segments and \<open>.\<close> are dropped, \<open>..\<close> removes the segment before it, and
  where there is none it is kept only when the path may rise above its start.
  The accumulator holds the segments kept so far, the last one first.
\<close>

fun normalizeSegments :: "bool \<Rightarrow> string list \<Rightarrow> string list \<Rightarrow> string list" where
  "normalizeSegments allowAboveRoot acc [] = rev acc"
| "normalizeSegments allowAboveRoot acc (seg # segs) =
     (if seg = [] \<or> seg = ''.'' then normalizeSegments allowAboveRoot acc segs
      else if seg = ''..'' then
        (case acc of
           [] \<Rightarrow> normalizeSegments allowAboveRoot (if allowAboveRoot then [''..''] else []) segs
         | lastSeg # below \<Rightarrow>
             if lastSeg = ''..'' then
               normalizeSegments allowAboveRoot (if allowAboveRoot then ''..'' # acc else acc) segs
             else normalizeSegments allowAboveRoot below segs)
      else normalizeSegments allowAboveRoot (seg # acc) segs)"

definition normalizeString :: "string \<Rightarrow> bool \<Rightarrow> string" where
  "normalizeString p allowAboveRoot =
     join ''/'' (normalizeSegments allowAboveRoot [] (split_on CHR ''/'' p))"

definition isAbsolute :: "string \<Rightarrow> bool" where
  "isAbsolute p = (p \<noteq> [] \<and> hd p = CHR ''/'')"

definition path_normalize :: "string \<Rightarrow> string" where
  "path_normalize p =
     (if p = [] then ''.''
      else
        (let trailing = (last p = CHR ''/'');
             q = normalizeString p (\<not> isAbsolute p)
         in if q = [] then
              (if isAbsolute p then ''/'' else if trailing then ''./'' else ''.'')
            else
              (if isAbsolute p then ''/'' else []) @ q @ (if trailing then ''/'' else [])))"

text \<open>\<^verbatim>\<open>path.join(a, b)\<close>: the non-empty arguments joined by a slash, then normalised.\<close>

definition path_join :: "string \<Rightarrow> string \<Rightarrow> string" where
  "path_join a b =
     (let joined = (if a = [] then b else if b = [] then a else a @ ''/'' @ b)
      in if joined = [] then ''.'' else path_normalize joined)"

text \<open>
  \<^verbatim>\<open>path.resolve(p)\<close> with one argument: a relative path is taken from the working
  directory \<open>cwd\<close> of the process (an absolute path); the result is absolute, normalised
  and has no trailing slash. It never looks at the file system.
\<close>

definition path_resolve :: "string \<Rightarrow> string \<Rightarrow> string" where
  "path_resolve cwd p =
     (let full = (if p = [] then cwd else if isAbsolute p then p else cwd @ ''/'' @ p)
      in ''/'' @ normalizeString full False)"

text \<open>
  The file system, as the calls of \<^verbatim>\<open>node:fs\<close> used here see it: what a path names.
  \<^verbatim>\<open>existsSync\<close> is true of files and directories; \<^verbatim>\<open>readFileSync\<close> returns the
  decoded text of a file and throws on anything else.
\<close>

datatype fsnode = File string | Dir

type_synonym filesystem = "string \<Rightarrow> fsnode option"

definition existsSync :: "filesystem \<Rightarrow> string \<Rightarrow> bool" where
  "existsSync fs p = (fs p \<noteq> None)"

definition readFileSync :: "filesystem \<Rightarrow> string \<Rightarrow> string + string" where
  "readFileSync fs p =
     (case fs p of
        Some (File content) \<Rightarrow> Inr content
      | Some Dir \<Rightarrow> Inl ''EISDIR: illegal operation on a directory, read''
      | None \<Rightarrow> Inl ''ENOENT: no such file or directory'')"

section \<open>Tool results and the get_excerpt handler\<close>

record 'd ToolResult =
  success :: bool
  data :: 'd
  outputSummary :: string
  error :: "string option"

record ExcerptResult =
  ex_path :: string
  ex_startLine :: int
  ex_endLine :: int
  ex_content :: string
  ex_totalLines :: int

record GetExcerptArgs =
  arg_path :: string
  arg_startLine :: int
  arg_endLine :: int

record ToolContext =
  repoPath :: string

text \<open>
  What a handler reads from outside its arguments: the working directory of the process
  (for \<^verbatim>\<open>path.resolve\<close>) and the file system.
\<close>

record Env =
  env_cwd :: string
  env_fs :: filesystem

text \<open>\<open>getExcerpt\<close> of \<^verbatim>\<open>tools/implementations.ts\<close>.\<close>

definition numberLines :: "int \<Rightarrow> string list \<Rightarrow> string list" where
  "numberLines safeStart excerpt =
     map (\<lambda>(i, line). string_of_int (safeStart + int i) @ '': '' @ line) (enumerate 0 excerpt)"

definition getExcerpt :: "Env \<Rightarrow> GetExcerptArgs \<Rightarrow> ToolContext \<Rightarrow> ExcerptResult ToolResult" where
  "getExcerpt env args context =
     (let filePath = arg_path args; startLine = arg_startLine args; endLine = arg_endLine args;
          fullPath = path_join (repoPath context) filePath;
          resolvedPath = path_resolve (env_cwd env) fullPath
      in if \<not> startsWith resolvedPath (path_resolve (env_cwd env) (repoPath context)) then
           \<lparr>success = False,
            data = \<lparr>ex_path = filePath, ex_startLine = startLine, ex_endLine = endLine,
                    ex_content = [], ex_totalLines = 0\<rparr>,
            outputSummary = ''Access denied: path outside repository'',
            error = Some ''Path outside repository''\<rparr>
         else if \<not> existsSync (env_fs env) fullPath then
           \<lparr>success = False,
            data = \<lparr>ex_path = filePath, ex_startLine = startLine, ex_endLine = endLine,
                    ex_content = [], ex_totalLines = 0\<rparr>,
            outputSummary = ''File not found: '' @ filePath,
            error = Some ''File not found''\<rparr>
         else
           (case readFileSync (env_fs env) fullPath of
              Inl message \<Rightarrow>
                \<lparr>success = False,
                 data = \<lparr>ex_path = filePath, ex_startLine = startLine, ex_endLine = endLine,
                         ex_content = [], ex_totalLines = 0\<rparr>,
                 outputSummary = ''Failed to read excerpt: '' @ message,
                 error = Some message\<rparr>
            | Inr content \<Rightarrow>
                (let lines = split_on LF content;
                     totalLines = int (length lines);
                     safeStart = max 1 (min startLine totalLines);
                     safeEnd = max safeStart (min endLine totalLines);
                     excerpt = js_slice (safeStart - 1) safeEnd lines;
                     numberedContent = join [LF] (numberLines safeStart excerpt)
                 in \<lparr>success = True,
                     data = \<lparr>ex_path = filePath, ex_startLine = safeStart, ex_endLine = safeEnd,
                             ex_content = numberedContent, ex_totalLines = totalLines\<rparr>,
                     outputSummary =
                       ''File: '' @ filePath @ '' (lines '' @ string_of_int safeStart @ ''-''
                       @ string_of_int safeEnd @ '' of '' @ string_of_int totalLines
                       @ '')'' @ [LF, LF] @ numberedContent,
                     error = None\<rparr>)))"

section \<open>The source verifier of \<^verbatim>\<open>agent/verifier.ts\<close>\<close>

record Source =
  path :: string
  startLine :: int
  endLine :: int

record VerificationResult =
  valid :: bool
  errors :: "string list"

text \<open>
  One round of the loop of \<open>verifySources\<close>: the errors it pushes for one source. Every
  \<^verbatim>\<open>continue\<close> ends the round. Of \<open>config\<close> only \<open>config.repoPath\<close> is read.
\<close>

definition verifySource :: "Env \<Rightarrow> string \<Rightarrow> Source \<Rightarrow> string list" where
  "verifySource env configRepoPath source =
     (if path source = [] then [''Source missing path'']
      else if startLine source < 1 then
        [''Source '' @ path source @ '': startLine must be >= 1'']
      else if endLine source < startLine source then
        [''Source '' @ path source @ '': endLine must be >= startLine'']
      else
        (let fullPath = path_join configRepoPath (path source);
             resolvedPath = path_resolve (env_cwd env) fullPath
         in if \<not> startsWith resolvedPath (path_resolve (env_cwd env) configRepoPath) then
              [''Source '' @ path source @ '': path outside repository'']
            else if \<not> existsSync (env_fs env) fullPath then
              [''Source '' @ path source @ '': file does not exist'']
            else
              (case readFileSync (env_fs env) fullPath of
                 Inl message \<Rightarrow> [''Source '' @ path source @ '': failed to read file'']
               | Inr content \<Rightarrow>
                   (let lineCount = int (length (split_on LF content))
                    in (if startLine source > lineCount then
                          [''Source '' @ path source @ '': startLine ''
                           @ string_of_int (startLine source) @ '' exceeds file length ''
                           @ string_of_int lineCount]
                        else [])
                       @ (if endLine source > lineCount then
                            [''Source '' @ path source @ '': endLine ''
                             @ string_of_int (endLine source) @ '' exceeds file length ''
                             @ string_of_int lineCount]
                          else [])))))"

definition verifySources :: "Env \<Rightarrow> Source list \<Rightarrow> string \<Rightarrow> VerificationResult" where
  "verifySources env sources configRepoPath =
     (if sources = [] then
        \<lparr>valid = False,
         errors = [''No sources provided. Every answer MUST include at least one source with path and line range.'']\<rparr>
      else
        (let errors = concat (map (verifySource env configRepoPath) sources)
         in \<lparr>valid = (errors = []), errors = errors\<rparr>))"

text \<open>
  Following the words of the specification, not the code: a resolved path is inside the
  repository when it is the resolved root or lies below it.
\<close>

definition spec_insideRepository :: "string \<Rightarrow> string \<Rightarrow> bool" where
  "spec_insideRepository rootDir p =
     (p = rootDir
      \<or> startsWith p (if rootDir \<noteq> [] \<and> last rootDir = CHR ''/'' then rootDir else rootDir @ ''/''))"

text \<open>A file system for the examples: one file beside the repository \<open>/home/repo\<close>, one in it.\<close>

definition exampleFs :: filesystem where
  "exampleFs p =
     (if p = ''/home/repo-evil/x.ts'' then Some (File ''secret'')
      else if p = ''/home/repo/foo.ts'' then Some (File (''a'' @ [LF] @ ''b'' @ [LF] @ ''c''))
      else if p = ''/home/repo'' then Some Dir
      else None)"

definition exampleEnv :: Env where
  "exampleEnv = \<lparr>env_cwd = ''/home'', env_fs = exampleFs\<rparr>"

section \<open>Properties of get_excerpt and of path containment\<close>

lemma split_on_nonempty: "split_on c s \<noteq> []"
  by (induction s) (auto split: list.splits)

lemma js_slice_take_drop:
  assumes "1 \<le> a" "a \<le> b" "b \<le> int (length xs)"
  shows "js_slice (a - 1) b xs = take (nat (b - a + 1)) (drop (nat (a - 1)) xs)"
proof -
  have "min (a - 1) (int (length xs)) = a - 1" "min b (int (length xs)) = b"
    using assms by simp_all
  moreover have "nat (b - (a - 1)) = nat (b - a + 1)"
    by simp
  ultimately show ?thesis
    using assms by (simp add: js_slice_def Let_def del: diff_diff_eq2)
qed

lemma js_slice_range:
  assumes "1 \<le> a" "a \<le> b" "b \<le> int (length xs)"
  shows "js_slice (a - 1) b xs = map (\<lambda>n. xs ! nat (n - 1)) [a..b]"
proof (rule nth_equalityI)
  have "nat (b - a + 1) \<le> length xs - nat (a - 1)"
    using assms by linarith
  then show len: "length (js_slice (a - 1) b xs) = length (map (\<lambda>n. xs ! nat (n - 1)) [a..b])"
    using assms by (simp add: js_slice_take_drop)
  fix i assume "i < length (js_slice (a - 1) b xs)"
  then have i: "int i < b - a + 1"
    using len assms by simp
  have "js_slice (a - 1) b xs ! i = xs ! (nat (a - 1) + i)"
    using assms i by (simp add: js_slice_take_drop)
  moreover have "map (\<lambda>n. xs ! nat (n - 1)) [a..b] ! i = xs ! nat (a + int i - 1)"
    using assms i by simp
  moreover have "nat (a - 1) + i = nat (a + int i - 1)"
    using assms by simp
  ultimately show "js_slice (a - 1) b xs ! i = map (\<lambda>n. xs ! nat (n - 1)) [a..b] ! i"
    by simp
qed

lemma numberLines_range:
  assumes "1 \<le> a" "a \<le> b" "b \<le> int (length xs)"
  shows "numberLines a (js_slice (a - 1) b xs)
         = map (\<lambda>n. string_of_int n @ '': '' @ xs ! nat (n - 1)) [a..b]"
proof (rule nth_equalityI)
  show "length (numberLines a (js_slice (a - 1) b xs))
        = length (map (\<lambda>n. string_of_int n @ '': '' @ xs ! nat (n - 1)) [a..b])"
    using assms by (simp add: numberLines_def js_slice_range)
next
  fix i assume "i < length (numberLines a (js_slice (a - 1) b xs))"
  then have i: "int i < b - a + 1"
    using assms by (simp add: numberLines_def js_slice_range)
  then show "numberLines a (js_slice (a - 1) b xs) ! i
        = map (\<lambda>n. string_of_int n @ '': '' @ xs ! nat (n - 1)) [a..b] ! i"
    using assms by (simp add: numberLines_def js_slice_range nth_enumerate_eq)
qed

text \<open>A path inside the repository passes the containment check of the handlers.\<close>

lemma inside_passes_check:
  assumes "spec_insideRepository rootDir p"
  shows "startsWith p rootDir"
proof -
  have "startsWith p (rootDir @ ''/'') \<Longrightarrow> startsWith p rootDir"
    unfolding startsWith_def
    by (metis append_eq_conv_conj append_take_drop_id length_append take_take min.absorb2 le_add1
        append.assoc)
  with assms show ?thesis
    by (auto simp: spec_insideRepository_def startsWith_def split: if_splits)
qed

text \<open>
  Claim C6. A \<open>get_excerpt\<close> call whose path passes the handler's containment check (as
  every path inside the repository does) and names an existing file of \<open>N\<close> lines
  succeeds; the reported range is \<open>a = max 1 (min startLine N)\<close> and
  \<open>b = max a (min endLine N)\<close>, so \<open>1 \<le> a \<le> b \<le> N\<close>; the content is the lines
  \<open>a\<close> to \<open>b\<close> of the file, each prefixed by its line number and a colon, joined by
  newlines; the summary is that content under the header
  \<^verbatim>\<open>File: <path> (lines a-b of N)\<close>. A call on a path that names nothing fails.
\<close>

theorem getExcerpt_clamps_range:
  "(startsWith (path_resolve (env_cwd env) (path_join (repoPath ctx) (arg_path args)))
               (path_resolve (env_cwd env) (repoPath ctx))
    \<and> env_fs env (path_join (repoPath ctx) (arg_path args)) = Some (File contents)
    \<longrightarrow>
      (let r = getExcerpt env args ctx;
           lines = split_on LF contents;
           N = int (length lines);
           a = max 1 (min (arg_startLine args) N);
           b = max a (min (arg_endLine args) N);
           body = join [LF] (map (\<lambda>n. string_of_int n @ '': '' @ lines ! nat (n - 1)) [a..b])
       in success r \<and> error r = None
          \<and> 1 \<le> a \<and> a \<le> b \<and> b \<le> N
          \<and> ex_path (data r) = arg_path args
          \<and> ex_startLine (data r) = a \<and> ex_endLine (data r) = b
          \<and> ex_totalLines (data r) = N
          \<and> ex_content (data r) = body
          \<and> outputSummary r
              = ''File: '' @ arg_path args @ '' (lines '' @ string_of_int a @ ''-''
                @ string_of_int b @ '' of '' @ string_of_int N @ '')'' @ [LF, LF] @ body))
   \<and> (env_fs env (path_join (repoPath ctx) (arg_path args)) = None
        \<longrightarrow> \<not> success (getExcerpt env args ctx))"
proof (intro conjI impI)
  assume h: "startsWith (path_resolve (env_cwd env) (path_join (repoPath ctx) (arg_path args)))
               (path_resolve (env_cwd env) (repoPath ctx))
    \<and> env_fs env (path_join (repoPath ctx) (arg_path args)) = Some (File contents)"
  define lines where "lines = split_on LF contents"
  define N where "N = int (length lines)"
  define a where "a = max 1 (min (arg_startLine args) N)"
  define b where "b = max a (min (arg_endLine args) N)"
  have N1: "1 \<le> N"
    using split_on_nonempty [of LF contents] by (cases lines) (simp_all add: N_def lines_def)
  have ab: "1 \<le> a" "a \<le> b" "b \<le> N"
    using N1 by (auto simp: a_def b_def)
  have nl: "numberLines a (js_slice (a - 1) b lines)
         = map (\<lambda>n. string_of_int n @ '': '' @ lines ! nat (n - 1)) [a..b]"
    using ab by (intro numberLines_range) (simp_all add: N_def)
  show "let r = getExcerpt env args ctx;
           lines = split_on LF contents;
           N = int (length lines);
           a = max 1 (min (arg_startLine args) N);
           b = max a (min (arg_endLine args) N);
           body = join [LF] (map (\<lambda>n. string_of_int n @ '': '' @ lines ! nat (n - 1)) [a..b])
       in success r \<and> error r = None
          \<and> 1 \<le> a \<and> a \<le> b \<and> b \<le> N
          \<and> ex_path (data r) = arg_path args
          \<and> ex_startLine (data r) = a \<and> ex_endLine (data r) = b
          \<and> ex_totalLines (data r) = N
          \<and> ex_content (data r) = body
          \<and> outputSummary r
              = ''File: '' @ arg_path args @ '' (lines '' @ string_of_int a @ ''-''
                @ string_of_int b @ '' of '' @ string_of_int N @ '')'' @ [LF, LF] @ body"
    unfolding Let_def lines_def [symmetric] N_def [symmetric] a_def [symmetric] b_def [symmetric]
    using h ab nl
    by (simp add: getExcerpt_def Let_def existsSync_def readFileSync_def
        lines_def [symmetric] N_def [symmetric] a_def [symmetric] b_def [symmetric])
next
  assume "env_fs env (path_join (repoPath ctx) (arg_path args)) = None"
  then show "\<not> success (getExcerpt env args ctx)"
    by (simp add: getExcerpt_def Let_def existsSync_def)
qed


theorem getExcerpt_clamps_range_witness:
  "(let r = getExcerpt exampleEnv \<lparr>arg_path = ''foo.ts'', arg_startLine = 2, arg_endLine = 9\<rparr>
              \<lparr>repoPath = ''/home/repo''\<rparr>
    in success r \<and> ex_startLine (data r) = 2 \<and> ex_endLine (data r) = 3
       \<and> ex_totalLines (data r) = 3
       \<and> ex_content (data r) = ''2: b'' @ [LF] @ ''3: c''
       \<and> outputSummary r = ''File: foo.ts (lines 2-3 of 3)'' @ [LF, LF] @ ''2: b'' @ [LF] @ ''3: c'')
   \<and> \<not> success (getExcerpt exampleEnv
                      \<lparr>arg_path = ''missing.ts'', arg_startLine = 1, arg_endLine = 1\<rparr>
                      \<lparr>repoPath = ''/home/repo''\<rparr>)"
proof -
  have p: "path_join ''/home/repo'' ''foo.ts'' = ''/home/repo/foo.ts''"
    by (simp add: path_join_def path_normalize_def normalizeString_def isAbsolute_def)
  have q: "path_join ''/home/repo'' ''missing.ts'' = ''/home/repo/missing.ts''"
    by (simp add: path_join_def path_normalize_def normalizeString_def isAbsolute_def)
  have r1: "path_resolve ''/home'' ''/home/repo/foo.ts'' = ''/home/repo/foo.ts''"
    by (simp add: path_resolve_def normalizeString_def isAbsolute_def)
  have r2: "path_resolve ''/home'' ''/home/repo'' = ''/home/repo''"
    by (simp add: path_resolve_def normalizeString_def isAbsolute_def)
  have h1: "startsWith (path_resolve (env_cwd exampleEnv)
                 (path_join (repoPath \<lparr>repoPath = ''/home/repo''\<rparr>)
                    (arg_path \<lparr>arg_path = ''foo.ts'', arg_startLine = 2, arg_endLine = 9\<rparr>)))
               (path_resolve (env_cwd exampleEnv) (repoPath \<lparr>repoPath = ''/home/repo''\<rparr>))
    \<and> env_fs exampleEnv (path_join (repoPath \<lparr>repoPath = ''/home/repo''\<rparr>)
          (arg_path \<lparr>arg_path = ''foo.ts'', arg_startLine = 2, arg_endLine = 9\<rparr>))
        = Some (File (''a'' @ [LF] @ ''b'' @ [LF] @ ''c''))"
    by (simp add: p r1 r2 exampleEnv_def exampleFs_def startsWith_def)
  have h2: "env_fs exampleEnv (path_join (repoPath \<lparr>repoPath = ''/home/repo''\<rparr>)
          (arg_path \<lparr>arg_path = ''missing.ts'', arg_startLine = 1, arg_endLine = 1\<rparr>)) = None"
    by (simp add: q exampleEnv_def exampleFs_def)
  have s: "string_of_int 2 = ''2''" "string_of_int 3 = ''3''"
    by (simp_all add: string_of_int_def string_of_nat.simps digit_char_def)
  have u: "[2..3::int] = [2, 3]"
    by (simp add: upto.simps)
  from getExcerpt_clamps_range [of exampleEnv "\<lparr>repoPath = ''/home/repo''\<rparr>"
      "\<lparr>arg_path = ''foo.ts'', arg_startLine = 2, arg_endLine = 9\<rparr>"
      "''a'' @ [LF] @ ''b'' @ [LF] @ ''c''"]
    getExcerpt_clamps_range [of exampleEnv "\<lparr>repoPath = ''/home/repo''\<rparr>"
      "\<lparr>arg_path = ''missing.ts'', arg_startLine = 1, arg_endLine = 1\<rparr>" "[]"]
    h1 h2
  show ?thesis
    by (simp add: Let_def s u)
qed

text \<open>
  Claim C2. The containment check of \<open>getExcerpt\<close> and of \<open>verifySources\<close> compares the
  resolved path with the resolved root by \<^verbatim>\<open>startsWith\<close>, so a sibling directory whose
  name continues the root's name passes it. With the repository at \<open>/home/repo\<close>, the path
  \<open>../repo-evil/x.ts\<close> begins with \<open>../\<close> and resolves to \<open>/home/repo-evil/x.ts\<close>, outside the
  repository; yet \<open>getExcerpt\<close> returns the file's content with \<open>success = true\<close> and
  \<open>verifySources\<close> accepts the citation.
\<close>

theorem getExcerpt_prefix_escape:
  "(let args = \<lparr>arg_path = ''../repo-evil/x.ts'', arg_startLine = 1, arg_endLine = 1\<rparr>;
        fullPath = path_join ''/home/repo'' (arg_path args);
        r = getExcerpt exampleEnv args \<lparr>repoPath = ''/home/repo''\<rparr>
    in startsWith (arg_path args) ''../''
       \<and> path_resolve ''/home'' fullPath = ''/home/repo-evil/x.ts''
       \<and> \<not> spec_insideRepository (path_resolve ''/home'' ''/home/repo'') (path_resolve ''/home'' fullPath)
       \<and> success r \<and> error r = None \<and> ex_content (data r) = ''1: secret''
       \<and> verifySources exampleEnv [\<lparr>path = ''../repo-evil/x.ts'', startLine = 1, endLine = 1\<rparr>]
             ''/home/repo'' = \<lparr>valid = True, errors = []\<rparr>)"
  by code_simp

section \<open>The repository index of \<^verbatim>\<open>indexer/index.ts\<close>\<close>

text \<open>
  \<^verbatim>\<open>\s\<close> of a JavaScript regular expression, on the code units 0..255: tab, line feed,
  vertical tab, form feed, carriage return, space and the no-break space.
\<close>

definition js_space :: "char \<Rightarrow> bool" where
  "js_space c = (c \<in> set [CHR 0x09, CHR 0x0A, CHR 0x0B, CHR 0x0C, CHR 0x0D, CHR 0x20, CHR 0xA0])"

text \<open>
  \<^verbatim>\<open>s.toLowerCase()\<close> on the code units 0..255: the letters A to Z and the accented
  capitals \<open>0xC0\<close> to \<open>0xDE\<close> (but the multiplication sign \<open>0xD7\<close>) move up by 32.
\<close>

definition lower_char :: "char \<Rightarrow> char" where
  "lower_char c =
     (let n = (of_char c :: nat)
      in if (65 \<le> n \<and> n \<le> 90) \<or> (192 \<le> n \<and> n \<le> 222 \<and> n \<noteq> 215) then char_of (n + 32) else c)"

definition toLowerCase :: "string \<Rightarrow> string" where
  "toLowerCase s = map lower_char s"

text \<open>
  \<^verbatim>\<open>s.split(/\s+/)\<close>: the pieces between maximal runs of white space; a run at either
  end leaves an empty piece there.
\<close>

function split_ws :: "string \<Rightarrow> string list" where
  "split_ws [] = [[]]"
| "split_ws (x # xs) =
     (if js_space x then [] # split_ws (dropWhile js_space xs)
      else (case split_ws xs of [] \<Rightarrow> [[x]] | l # ls \<Rightarrow> (x # l) # ls))"
  by pat_completeness auto
termination
  by (relation "measure length") (auto simp: le_imp_less_Suc length_dropWhile_le)

text \<open>The row types: what the \<^verbatim>\<open>SELECT\<close> returns, and what \<open>search\<close> returns.\<close>

record IndexRow =
  row_path :: string
  row_content :: string
  row_score :: real

record SearchResult =
  sr_path :: string
  sr_score :: real
  sr_snippet :: string
  sr_startLine :: int
  sr_endLine :: int

text \<open>
  The inner loop of \<open>findBestMatchLine\<close>: how many of the query terms the lower-cased
  line includes.
\<close>

definition termScore :: "string list \<Rightarrow> string \<Rightarrow> nat" where
  "termScore queryTerms l = length (filter (str_includes (toLowerCase l)) queryTerms)"

text \<open>
  The outer loop, from index \<open>i\<close> on; the state is \<open>(bestLine, bestScore)\<close>.
\<close>

fun findBestLoop :: "string list \<Rightarrow> nat \<Rightarrow> string list \<Rightarrow> nat \<times> nat \<Rightarrow> nat \<times> nat" where
  "findBestLoop queryTerms i [] (bestLine, bestScore) = (bestLine, bestScore)"
| "findBestLoop queryTerms i (l # ls) (bestLine, bestScore) =
     (let score = termScore queryTerms l
      in if score > bestScore then findBestLoop queryTerms (i + 1) ls (i + 1, score)
         else findBestLoop queryTerms (i + 1) ls (bestLine, bestScore))"

definition findBestMatchLine :: "string list \<Rightarrow> string \<Rightarrow> nat" where
  "findBestMatchLine lines query =
     fst (findBestLoop (split_ws (toLowerCase query)) 0 lines (1, 0))"

text \<open>
  The text handed to \<^verbatim>\<open>MATCH\<close>: quotes removed, split at white space, empty terms
  dropped, each term quoted, joined by \<open>OR\<close>.
\<close>

definition sanitizeQuery :: "string \<Rightarrow> string" where
  "sanitizeQuery query =
     join '' OR ''
       (map (\<lambda>term. [CHR 0x22] @ term @ [CHR 0x22])
          (filter (\<lambda>term. length term > 0)
             (split_ws (filter (\<lambda>c. c \<noteq> CHR 0x27 \<and> c \<noteq> CHR 0x22) query))))"

text \<open>
  A JavaScript number, the type of \<open>topK\<close>: a finite value, or one of \<^verbatim>\<open>NaN\<close>,
  \<^verbatim>\<open>Infinity\<close> and \<^verbatim>\<open>-Infinity\<close>.
\<close>

datatype number = Num real | NaN | PosInfinity | NegInfinity

text \<open>
  The database is the full-text engine behind the prepared statement: \<open>db q\<close> is the list
  of rows that match the expression \<open>q\<close>, in the order of \<^verbatim>\<open>ORDER BY score\<close>.

  \<open>sqlLimit n rows\<close> is what \<^verbatim>\<open>LIMIT ?\<close> does to them when \<^verbatim>\<open>stmt.all\<close> binds the
  number \<open>n\<close> to the parameter, as SQLite evaluates a limit: a value that cannot be converted
  to a 64-bit integer without loss (a fraction, a value out of range, an infinity, or
  \<^verbatim>\<open>NaN\<close>, which is bound as \<^verbatim>\<open>NULL\<close>) makes the statement fail with the message
  \<^verbatim>\<open>datatype mismatch\<close>, which \<^verbatim>\<open>stmt.all\<close> throws; a negative integer means that there
  is no upper bound on the number of rows; any other integer \<open>k\<close> keeps the first \<open>k\<close> rows.
\<close>

definition sqlLimit :: "number \<Rightarrow> 'a list \<Rightarrow> string + 'a list" where
  "sqlLimit n rows =
     (case n of
        Num r \<Rightarrow>
          (if r = of_int \<lfloor>r\<rfloor> \<and> - (2 ^ 63) < r \<and> r < 2 ^ 63 then
             (if r < 0 then Inr rows else Inr (take (nat \<lfloor>r\<rfloor>) rows))
           else Inl ''datatype mismatch'')
      | other \<Rightarrow> Inl ''datatype mismatch'')"

definition toSearchResult :: "string \<Rightarrow> IndexRow \<Rightarrow> SearchResult" where
  "toSearchResult query row =
     (let lines = split_on LF (row_content row);
          matchIndex = int (findBestMatchLine lines query);
          startLine = max 1 (matchIndex - 5);
          endLine = min (int (length lines)) (matchIndex + 15)
      in \<lparr>sr_path = row_path row,
          sr_score = \<bar>row_score row\<bar>,
          sr_snippet = join [LF] (js_slice (startLine - 1) endLine lines),
          sr_startLine = startLine,
          sr_endLine = endLine\<rparr>)"

text \<open>
  \<open>search\<close>. Its second parameter is optional: \<open>None\<close> is a call that leaves it out (or
  passes \<^verbatim>\<open>undefined\<close>), for which the default 10 is taken. The number is handed to the
  statement as it comes; \<open>Inl\<close> is the error that \<^verbatim>\<open>stmt.all\<close> throws.
\<close>

definition search ::
  "(string \<Rightarrow> IndexRow list) \<Rightarrow> string \<Rightarrow> number option \<Rightarrow> string + SearchResult list" where
  "search db query topKArg =
     (let topK = (case topKArg of None \<Rightarrow> Num 10 | Some n \<Rightarrow> n);
          sanitizedQuery = sanitizeQuery query
      in if sanitizedQuery = [] then Inr []
         else (case sqlLimit topK (db sanitizedQuery) of
                 Inl message \<Rightarrow> Inl message
               | Inr results \<Rightarrow> Inr (map (toSearchResult query) results)))"

lemma findBestLoop_spec:
  "findBestLoop ts i ls (bl, bs) = (r, rs) \<Longrightarrow>
     (\<forall>l \<in> set ls. termScore ts l \<le> rs) \<and> bs \<le> rs \<and>
     ((r = bl \<and> rs = bs)
      \<or> (\<exists>j < length ls. r = i + 1 + j \<and> rs = termScore ts (ls ! j) \<and> bs < rs
            \<and> (\<forall>k < j. termScore ts (ls ! k) < rs)))"
proof (induction ls arbitrary: i bl bs)
  case Nil
  then show ?case by simp
next
  case (Cons l ls)
  show ?case
  proof (cases "termScore ts l > bs")
    case True
    with Cons.prems have rec: "findBestLoop ts (i + 1) ls (i + 1, termScore ts l) = (r, rs)"
      by (simp add: Let_def)
    from Cons.IH [OF rec] have
      le: "\<forall>l \<in> set ls. termScore ts l \<le> rs" and ge: "termScore ts l \<le> rs" and
      alt: "(r = i + 1 \<and> rs = termScore ts l)
        \<or> (\<exists>j < length ls. r = i + 1 + 1 + j \<and> rs = termScore ts (ls ! j) \<and> termScore ts l < rs
            \<and> (\<forall>k < j. termScore ts (ls ! k) < rs))"
      by auto
    from alt show ?thesis
    proof
      assume "r = i + 1 \<and> rs = termScore ts l"
      then have "\<exists>j < length (l # ls). r = i + 1 + j \<and> rs = termScore ts ((l # ls) ! j) \<and> bs < rs
            \<and> (\<forall>k < j. termScore ts ((l # ls) ! k) < rs)"
        using True by (intro exI [of _ 0]) simp
      then show ?thesis using le ge True by auto
    next
      assume "\<exists>j < length ls. r = i + 1 + 1 + j \<and> rs = termScore ts (ls ! j) \<and> termScore ts l < rs
            \<and> (\<forall>k < j. termScore ts (ls ! k) < rs)"
      then obtain j where j: "j < length ls" "r = i + 1 + 1 + j" "rs = termScore ts (ls ! j)"
        "termScore ts l < rs" "\<forall>k < j. termScore ts (ls ! k) < rs"
        by blast
      have "\<forall>k < Suc j. termScore ts ((l # ls) ! k) < rs"
        using j by (auto simp: nth_Cons split: nat.splits)
      then have "\<exists>j < length (l # ls). r = i + 1 + j \<and> rs = termScore ts ((l # ls) ! j) \<and> bs < rs
            \<and> (\<forall>k < j. termScore ts ((l # ls) ! k) < rs)"
        using j True by (intro exI [of _ "Suc j"]) auto
      then show ?thesis using le ge True by auto
    qed
  next
    case False
    with Cons.prems have rec: "findBestLoop ts (i + 1) ls (bl, bs) = (r, rs)"
      by (simp add: Let_def)
    from Cons.IH [OF rec] have
      le: "\<forall>l \<in> set ls. termScore ts l \<le> rs" and ge: "bs \<le> rs" and
      alt: "(r = bl \<and> rs = bs)
        \<or> (\<exists>j < length ls. r = i + 1 + 1 + j \<and> rs = termScore ts (ls ! j) \<and> bs < rs
            \<and> (\<forall>k < j. termScore ts (ls ! k) < rs))"
      by auto
    from alt show ?thesis
    proof
      assume "r = bl \<and> rs = bs"
      then show ?thesis using le ge False by auto
    next
      assume "\<exists>j < length ls. r = i + 1 + 1 + j \<and> rs = termScore ts (ls ! j) \<and> bs < rs
            \<and> (\<forall>k < j. termScore ts (ls ! k) < rs)"
      then obtain j where j: "j < length ls" "r = i + 1 + 1 + j" "rs = termScore ts (ls ! j)"
        "bs < rs" "\<forall>k < j. termScore ts (ls ! k) < rs"
        by blast
      have "\<forall>k < Suc j. termScore ts ((l # ls) ! k) < rs"
        using j False by (auto simp: nth_Cons split: nat.splits)
      then have "\<exists>j < length (l # ls). r = i + 1 + j \<and> rs = termScore ts ((l # ls) ! j) \<and> bs < rs
            \<and> (\<forall>k < j. termScore ts ((l # ls) ! k) < rs)"
        using j by (intro exI [of _ "Suc j"]) auto
      then show ?thesis using le ge False by auto
    qed
  qed
qed

lemma findBestMatchLine_spec:
  fixes lines :: "string list" and query :: string
  assumes "lines \<noteq> []"
  defines "f \<equiv> findBestMatchLine lines query"
  defines "sc \<equiv> termScore (split_ws (toLowerCase query))"
  shows "1 \<le> f" "f \<le> length lines"
    "\<forall>j < length lines. sc (lines ! j) \<le> sc (lines ! (f - 1))"
    "\<forall>j < f - 1. sc (lines ! j) < sc (lines ! (f - 1))"
proof -
  obtain r rs where run: "findBestLoop (split_ws (toLowerCase query)) 0 lines (1, 0) = (r, rs)"
    by (cases "findBestLoop (split_ws (toLowerCase query)) 0 lines (1, 0)") simp
  then have fr: "f = r"
    by (simp add: f_def findBestMatchLine_def)
  from findBestLoop_spec [OF run] have
    le: "\<forall>l \<in> set lines. sc l \<le> rs" and
    alt: "(r = 1 \<and> rs = 0)
      \<or> (\<exists>j < length lines. r = 0 + 1 + j \<and> rs = sc (lines ! j) \<and> 0 < rs
            \<and> (\<forall>k < j. sc (lines ! k) < rs))"
    by (auto simp: sc_def)
  have all: "1 \<le> f \<and> f \<le> length lines
    \<and> (\<forall>j < length lines. sc (lines ! j) \<le> sc (lines ! (f - 1)))
    \<and> (\<forall>j < f - 1. sc (lines ! j) < sc (lines ! (f - 1)))"
    using alt
  proof
    assume "r = 1 \<and> rs = 0"
    moreover from this le have "\<forall>j < length lines. sc (lines ! j) = 0"
      by auto
    ultimately show ?thesis
      using assms(1) fr by (cases lines) simp_all
  next
    assume "\<exists>j < length lines. r = 0 + 1 + j \<and> rs = sc (lines ! j) \<and> 0 < rs
            \<and> (\<forall>k < j. sc (lines ! k) < rs)"
    then obtain j where j: "j < length lines" "r = 1 + j" "rs = sc (lines ! j)"
      "\<forall>k < j. sc (lines ! k) < rs"
      by auto
    then show ?thesis
      using le fr by auto
  qed
  from all show "1 \<le> f" "f \<le> length lines"
    "\<forall>j < length lines. sc (lines ! j) \<le> sc (lines ! (f - 1))"
    "\<forall>j < f - 1. sc (lines ! j) < sc (lines ! (f - 1))"
    by blast+
qed

lemma toSearchResult_spec:
  fixes query :: string and row :: IndexRow
  defines "lines \<equiv> split_on LF (row_content row)"
  defines "focus \<equiv> int (findBestMatchLine lines query)"
  defines "sc \<equiv> termScore (split_ws (toLowerCase query))"
  defines "r \<equiv> toSearchResult query row"
  shows "sr_path r = row_path row \<and> sr_score r = \<bar>row_score row\<bar>
     \<and> 1 \<le> focus \<and> focus \<le> int (length lines)
     \<and> (\<forall>j < length lines. sc (lines ! j) \<le> sc (lines ! nat (focus - 1)))
     \<and> (\<forall>j < nat (focus - 1). sc (lines ! j) < sc (lines ! nat (focus - 1)))
     \<and> sr_startLine r = max 1 (focus - 5)
     \<and> sr_endLine r = min (int (length lines)) (focus + 15)
     \<and> sr_snippet r
         = join [LF] (map (\<lambda>n. lines ! nat (n - 1))
                        [max 1 (focus - 5)..min (int (length lines)) (focus + 15)])"
proof -
  have ne: "lines \<noteq> []"
    by (simp add: lines_def split_on_nonempty)
  note fb = findBestMatchLine_spec [OF ne, of query]
  have f1: "1 \<le> focus" and f2: "focus \<le> int (length lines)"
    using fb(1,2) by (simp_all add: focus_def)
  have idx: "nat (focus - 1) = findBestMatchLine lines query - 1"
    by (simp add: focus_def)
  have mx: "\<forall>j < length lines. sc (lines ! j) \<le> sc (lines ! nat (focus - 1))"
    using fb(3) unfolding idx sc_def .
  have fst: "\<forall>j < nat (focus - 1). sc (lines ! j) < sc (lines ! nat (focus - 1))"
    using fb(4) unfolding idx sc_def .
  have sl: "js_slice (max 1 (focus - 5) - 1) (min (int (length lines)) (focus + 15)) lines
      = map (\<lambda>n. lines ! nat (n - 1)) [max 1 (focus - 5)..min (int (length lines)) (focus + 15)]"
    using f1 f2 by (intro js_slice_range) auto
  show ?thesis
    using f1 f2 mx fst sl
    by (simp add: r_def toSearchResult_def Let_def lines_def [symmetric] focus_def [symmetric])
qed

lemma sqlLimit_nat:
  assumes "k < 2 ^ 63"
  shows "sqlLimit (Num (real k)) rows = Inr (take k rows)"
proof -
  have "real k < real (2 ^ 63)"
    using assms by (simp only: of_nat_less_iff)
  then have up: "real k < 2 ^ 63"
    by simp
  have lo: "- (2 ^ 63) < real k"
    by (rule less_le_trans [of _ 0]) simp_all
  show ?thesis
    using up lo by (simp add: sqlLimit_def)
qed

text \<open>
  What \<open>search\<close> returns when the limit is a natural number \<open>k\<close> below \<open>2 ^ 63\<close> (the default
  is 10): at most \<open>k\<close> rows. Row \<open>i\<close> of the result comes from row \<open>i\<close> of the ranked, limited
  answer of the database: its score is the absolute value of the raw score; its focus line
  lies in the file, contains at least as many of the lower-cased query terms as any line,
  and strictly more than every earlier line; the snippet is the lines \<open>max 1 (focus - 5)\<close>
  to \<open>min N (focus + 15)\<close> of the \<open>N\<close> lines, joined by newlines.
\<close>

lemma search_rows:
  assumes "(topKArg = None \<and> k = 10) \<or> (topKArg = Some (Num (real k)) \<and> k < 2 ^ 63)"
  shows "\<exists>rs. search db query topKArg = Inr rs \<and> length rs \<le> k
   \<and> (\<forall>i < length rs.
        (let row = take k (db (sanitizeQuery query)) ! i;
             r = rs ! i;
             lines = split_on LF (row_content row);
             N = int (length lines);
             focus = int (findBestMatchLine lines query);
             sc = termScore (split_ws (toLowerCase query))
         in sr_path r = row_path row \<and> sr_score r = \<bar>row_score row\<bar>
            \<and> 1 \<le> focus \<and> focus \<le> N
            \<and> (\<forall>j < length lines. sc (lines ! j) \<le> sc (lines ! nat (focus - 1)))
            \<and> (\<forall>j < nat (focus - 1). sc (lines ! j) < sc (lines ! nat (focus - 1)))
            \<and> sr_startLine r = max 1 (focus - 5)
            \<and> sr_endLine r = min N (focus + 15)
            \<and> sr_snippet r
                = join [LF] (map (\<lambda>n. lines ! nat (n - 1)) [max 1 (focus - 5)..min N (focus + 15)])))"
proof -
  define rs where
    "rs = (if sanitizeQuery query = [] then []
           else map (toSearchResult query) (take k (db (sanitizeQuery query))))"
  have k: "k < 2 ^ 63" and arg: "(case topKArg of None \<Rightarrow> Num 10 | Some n \<Rightarrow> n) = Num (real k)"
    using assms by auto
  have res: "search db query topKArg = Inr rs"
    unfolding search_def Let_def arg sqlLimit_nat [OF k] rs_def by simp
  have len: "length rs \<le> k"
    by (simp add: rs_def)
  have rows: "let row = take k (db (sanitizeQuery query)) ! i;
             r = rs ! i;
             lines = split_on LF (row_content row);
             N = int (length lines);
             focus = int (findBestMatchLine lines query);
             sc = termScore (split_ws (toLowerCase query))
         in sr_path r = row_path row \<and> sr_score r = \<bar>row_score row\<bar>
            \<and> 1 \<le> focus \<and> focus \<le> N
            \<and> (\<forall>j < length lines. sc (lines ! j) \<le> sc (lines ! nat (focus - 1)))
            \<and> (\<forall>j < nat (focus - 1). sc (lines ! j) < sc (lines ! nat (focus - 1)))
            \<and> sr_startLine r = max 1 (focus - 5)
            \<and> sr_endLine r = min N (focus + 15)
            \<and> sr_snippet r
                = join [LF] (map (\<lambda>n. lines ! nat (n - 1)) [max 1 (focus - 5)..min N (focus + 15)])"
    if i: "i < length rs" for i
  proof -
    from i have ne: "sanitizeQuery query \<noteq> []"
      by (auto simp: rs_def split: if_splits)
    with i have i': "i < length (take k (db (sanitizeQuery query)))"
      by (simp add: rs_def)
    have r: "rs ! i = toSearchResult query (take k (db (sanitizeQuery query)) ! i)"
      using ne i' by (simp add: rs_def)
    show ?thesis
      unfolding Let_def r
      using toSearchResult_spec [of query "take k (db (sanitizeQuery query)) ! i"]
      by blast
  qed
  from res len rows show ?thesis
    by blast
qed

definition exampleDb :: "string \<Rightarrow> IndexRow list" where
  "exampleDb q =
     [\<lparr>row_path = ''a.ts'', row_content = ''x'' @ [LF] @ ''foo bar'' @ [LF] @ ''bar FOO'',
       row_score = - 3 / 2\<rparr>,
      \<lparr>row_path = ''b.ts'', row_content = ''foo'', row_score = - 1\<rparr>]"

lemma search_rows_example:
  "search exampleDb ''Foo  bar'' (Some (Num 1))
     = Inr [\<lparr>sr_path = ''a.ts'', sr_score = 3 / 2,
         sr_snippet = ''x'' @ [LF] @ ''foo bar'' @ [LF] @ ''bar FOO'',
         sr_startLine = 1, sr_endLine = 3\<rparr>]
   \<and> findBestMatchLine [''x'', ''foo bar'', ''bar FOO''] ''Foo  bar'' = 2"
  by code_simp

text \<open>
  Claim C7 says that \<open>search\<close> returns at most \<open>topK\<close> rows for every \<open>topK\<close>. The number
  reaches \<^verbatim>\<open>LIMIT ?\<close> unchecked, and a negative limit is no limit: with two matching rows
  in the index, \<open>search\<close> with \<open>topK = -1\<close> returns both of them, which is more than \<open>topK\<close>
  rows; with \<open>topK = 1.5\<close> the statement is refused and \<open>search\<close> throws instead of
  returning rows. The schema of the \<^verbatim>\<open>search_chunks\<close> tool admits only the integers from 1
  to 50 as \<open>topK\<close>; the \<^verbatim>\<open>search_index\<close> tool of \<^verbatim>\<open>agent/tools.ts\<close> hands the number of the
  tool call to \<open>search\<close> as it is.
\<close>

theorem search_negative_topK:
  "(case search exampleDb ''foo'' (Some (Num (- 1))) of
      Inl message \<Rightarrow> False
    | Inr rs \<Rightarrow>
        rs = [\<lparr>sr_path = ''a.ts'', sr_score = 3 / 2,
                sr_snippet = ''x'' @ [LF] @ ''foo bar'' @ [LF] @ ''bar FOO'',
                sr_startLine = 1, sr_endLine = 3\<rparr>,
              \<lparr>sr_path = ''b.ts'', sr_score = 1, sr_snippet = ''foo'',
                sr_startLine = 1, sr_endLine = 1\<rparr>]
        \<and> real (length rs) > - 1)
   \<and> search exampleDb ''foo'' (Some (Num (3 / 2))) = Inl ''datatype mismatch''"
  by code_simp

section \<open>The tool registry of \<^verbatim>\<open>tools/registry.ts\<close>\<close>

text \<open>
  What \<^verbatim>\<open>schema.safeParse\<close> reports for invalid arguments: a list of issues, each with
  the path of the offending field and a message.
\<close>

record ZodIssue =
  issue_path :: "string list"
  message :: string

text \<open>
  A tool definition. \<open>'j\<close> is the type of parsed JSON values, \<open>'a\<close> of validated arguments,
  \<open>'d\<close> of result data, \<open>'s\<close> of the JSON schema sent to the provider. \<open>schema\<close> is
  \<^verbatim>\<open>safeParse\<close> of the Zod schema: the issues, or the validated data. A handler returns
  its result or throws; \<open>Inl m\<close> is a throw (or a rejected promise) whose error prints as
  \<open>m\<close>. The data of a result is of type \<^verbatim>\<open>unknown\<close> and may be \<^verbatim>\<open>null\<close>, here \<open>None\<close>.
\<close>

record ('j, 'a, 'd, 's) ToolDefinition =
  name :: string
  description :: string
  schema :: "'j \<Rightarrow> ZodIssue list + 'a"
  parameters :: 's
  handler :: "'a \<Rightarrow> ToolContext \<Rightarrow> string + ('d option) ToolResult"

text \<open>
  The registry: a JavaScript \<^verbatim>\<open>Map\<close> from names to definitions, which keeps the order
  of first insertion, and the context handed to every handler.
\<close>

record ('j, 'a, 'd, 's) ToolRegistry =
  tools :: "(string \<times> ('j, 'a, 'd, 's) ToolDefinition) list"
  reg_context :: ToolContext

text \<open>\<^verbatim>\<open>map.set(k, v)\<close>: replaces the value of a present key in place, else appends.\<close>

fun map_set :: "'k \<Rightarrow> 'v \<Rightarrow> ('k \<times> 'v) list \<Rightarrow> ('k \<times> 'v) list" where
  "map_set k v [] = [(k, v)]"
| "map_set k v (p # ps) = (if fst p = k then (k, v) # ps else p # map_set k v ps)"

definition newToolRegistry ::
  "('j, 'a, 'd, 's) ToolDefinition list \<Rightarrow> ToolContext \<Rightarrow> ('j, 'a, 'd, 's) ToolRegistry" where
  "newToolRegistry TOOL_DEFINITIONS ctx =
     \<lparr>tools = foldl (\<lambda>m tool. map_set (name tool) tool m) [] TOOL_DEFINITIONS, reg_context = ctx\<rparr>"

definition registerTool ::
  "('j, 'a, 'd, 's) ToolDefinition \<Rightarrow> ('j, 'a, 'd, 's) ToolRegistry \<Rightarrow> ('j, 'a, 'd, 's) ToolRegistry" where
  "registerTool tool reg = reg\<lparr>tools := map_set (name tool) tool (tools reg)\<rparr>"

definition getToolNames :: "('j, 'a, 'd, 's) ToolRegistry \<Rightarrow> string list" where
  "getToolNames reg = map fst (tools reg)"

record 's ToolSchema =
  ts_name :: string
  ts_description :: string
  ts_parameters :: 's

definition getToolSchemas :: "('j, 'a, 'd, 's) ToolRegistry \<Rightarrow> 's ToolSchema list" where
  "getToolSchemas reg =
     map (\<lambda>(k, tool). \<lparr>ts_name = name tool, ts_description = description tool,
                         ts_parameters = parameters tool\<rparr>) (tools reg)"

text \<open>
  \<open>executeToolCall\<close>. \<open>jsonParse\<close> is \<^verbatim>\<open>JSON.parse\<close>: the value, or \<open>Inl m\<close> for a
  \<^verbatim>\<open>SyntaxError\<close> with message \<open>m\<close>. The arguments arrive as a string (\<open>Inl\<close>) or as an
  object (\<open>Inr\<close>). The result is \<open>Inr\<close> of a tool result, or \<open>Inl\<close> of an exception that
  leaves the function; each \<^verbatim>\<open>catch\<close> of the source turns a throw into a result.
\<close>

definition parseArgs :: "(string \<Rightarrow> string + 'j) \<Rightarrow> string + 'j \<Rightarrow> string + 'j" where
  "parseArgs jsonParse argsJson = (case argsJson of Inl s \<Rightarrow> jsonParse s | Inr obj \<Rightarrow> Inr obj)"

definition executeToolCall ::
  "(string \<Rightarrow> string + 'j) \<Rightarrow> ('j, 'a, 'd, 's) ToolRegistry \<Rightarrow> string \<Rightarrow> string + 'j
     \<Rightarrow> string + ('d option) ToolResult" where
  "executeToolCall jsonParse reg toolName argsJson =
     (case map_of (tools reg) toolName of
        None \<Rightarrow>
          Inr \<lparr>success = False, data = None,
               outputSummary = ''Unknown tool: '' @ [CHR 0x22] @ toolName @ [CHR 0x22]
                 @ ''. Available tools: '' @ join '', '' (getToolNames reg),
               error = Some (''Unknown tool: '' @ toolName)\<rparr>
      | Some tool \<Rightarrow>
          (case parseArgs jsonParse argsJson of
             Inl m \<Rightarrow>
               Inr \<lparr>success = False, data = None,
                    outputSummary = ''Failed to parse arguments: '' @ m,
                    error = Some ''Invalid JSON arguments''\<rparr>
           | Inr args \<Rightarrow>
               (case schema tool args of
                  Inl issues \<Rightarrow>
                    (let errors = join ''; ''
                           (map (\<lambda>e. join ''.'' (issue_path e) @ '': '' @ message e) issues)
                     in Inr \<lparr>success = False, data = None,
                             outputSummary = ''Invalid arguments for '' @ [CHR 0x22] @ toolName
                               @ [CHR 0x22] @ '': '' @ errors,
                             error = Some (''Validation failed: '' @ errors)\<rparr>)
                | Inr validated \<Rightarrow>
                    (case handler tool validated (reg_context reg) of
                       Inl m \<Rightarrow>
                         Inr \<lparr>success = False, data = None,
                              outputSummary = ''Tool execution failed: '' @ m,
                              error = Some m\<rparr>
                     | Inr result \<Rightarrow> Inr result))))"


text \<open>
  An example registry. JSON values, and \<open>GetExcerptArgsSchema\<close> as Zod validates it: the
  argument must be an object; \<open>path\<close> a string of at least one character; \<open>startLine\<close> and
  \<open>endLine\<close> integers, at least 1. Every failed check adds an issue.
\<close>

datatype json =
  JNull | JBool bool | JNumber rat | JString string | JArray "json list"
  | JObject "(string \<times> json) list"

fun parsedType :: "json \<Rightarrow> string" where
  "parsedType JNull = ''null''"
| "parsedType (JBool b) = ''boolean''"
| "parsedType (JNumber x) = ''number''"
| "parsedType (JString s) = ''string''"
| "parsedType (JArray xs) = ''array''"
| "parsedType (JObject members) = ''object''"

definition checkString :: "string \<Rightarrow> json option \<Rightarrow> ZodIssue list" where
  "checkString field v =
     (case v of
        None \<Rightarrow> [\<lparr>issue_path = [field], message = ''Required''\<rparr>]
      | Some (JString s) \<Rightarrow>
          (if length s < 1 then
             [\<lparr>issue_path = [field], message = ''String must contain at least 1 character(s)''\<rparr>]
           else [])
      | Some other \<Rightarrow>
          [\<lparr>issue_path = [field], message = ''Expected string, received '' @ parsedType other\<rparr>])"

definition checkLine :: "string \<Rightarrow> json option \<Rightarrow> ZodIssue list" where
  "checkLine field v =
     (case v of
        None \<Rightarrow> [\<lparr>issue_path = [field], message = ''Required''\<rparr>]
      | Some (JNumber x) \<Rightarrow>
          (if x \<noteq> of_int \<lfloor>x\<rfloor> then
             [\<lparr>issue_path = [field], message = ''Expected integer, received float''\<rparr>]
           else [])
          @ (if x < 1 then
               [\<lparr>issue_path = [field], message = ''Number must be greater than or equal to 1''\<rparr>]
             else [])
      | Some other \<Rightarrow>
          [\<lparr>issue_path = [field], message = ''Expected number, received '' @ parsedType other\<rparr>])"

definition GetExcerptArgsSchema :: "json \<Rightarrow> ZodIssue list + GetExcerptArgs" where
  "GetExcerptArgsSchema v =
     (case v of
        JObject members \<Rightarrow>
          (let issues = checkString ''path'' (map_of members ''path'')
                 @ checkLine ''startLine'' (map_of members ''startLine'')
                 @ checkLine ''endLine'' (map_of members ''endLine'')
           in if issues \<noteq> [] then Inl issues
              else
                (case (map_of members ''path'', map_of members ''startLine'', map_of members ''endLine'') of
                   (Some (JString p), Some (JNumber a), Some (JNumber b)) \<Rightarrow>
                     Inr \<lparr>arg_path = p, arg_startLine = \<lfloor>a\<rfloor>, arg_endLine = \<lfloor>b\<rfloor>\<rparr>
                 | other \<Rightarrow> Inl []))
      | other \<Rightarrow>
          Inl [\<lparr>issue_path = [], message = ''Expected object, received '' @ parsedType other\<rparr>])"

definition getExcerptTool :: "Env \<Rightarrow> (json, GetExcerptArgs, ExcerptResult, unit) ToolDefinition" where
  "getExcerptTool env =
     \<lparr>name = ''get_excerpt'',
      description = ''Get a specific excerpt from a file by line range. Returns the content with line numbers.'',
      schema = GetExcerptArgsSchema,
      parameters = (),
      handler = (\<lambda>args ctx.
        (let r = getExcerpt env args ctx
         in Inr \<lparr>success = success r, data = Some (data r), outputSummary = outputSummary r,
                  error = error r\<rparr>))\<rparr>"

text \<open>A second tool, registered for the examples, whose handler always throws.\<close>

definition throwingTool :: "(json, GetExcerptArgs, ExcerptResult, unit) ToolDefinition" where
  "throwingTool =
     \<lparr>name = ''throwing_tool'', description = ''Always throws.'',
      schema = GetExcerptArgsSchema, parameters = (),
      handler = (\<lambda>args ctx. Inl ''EACCES: permission denied'')\<rparr>"

definition exampleRegistry :: "(json, GetExcerptArgs, ExcerptResult, unit) ToolRegistry" where
  "exampleRegistry =
     registerTool throwingTool
       (newToolRegistry [getExcerptTool exampleEnv] \<lparr>repoPath = ''/home/repo''\<rparr>)"

text \<open>A stand-in for \<^verbatim>\<open>JSON.parse\<close> that knows two texts.\<close>

definition exampleJsonParse :: "string \<Rightarrow> string + json" where
  "exampleJsonParse s =
     (if s = ''{}'' then Inr (JObject [])
      else if s = ''null'' then Inr JNull
      else Inl ''Unexpected end of JSON input'')"

lemma startsWith_includes: "startsWith s t \<Longrightarrow> str_includes s t"
  by (cases s) (auto simp: startsWith_def)

lemma str_includes_append: "str_includes (a @ t @ b) t"
  by (induction a) (simp_all add: startsWith_includes startsWith_def)

declare str_includes.simps [simp del]





section \<open>Regular expressions\<close>

text \<open>
  The regular expressions of the agent, matched as the ECMAScript backtracking matcher
  does. \<open>Cls P\<close> is one code unit a class accepts, \<open>Eos\<close> is \<^verbatim>\<open>$\<close> (without the
  \<^verbatim>\<open>m\<close> flag: the end of the input), \<open>Star\<close> is the greedy \<^verbatim>\<open>*\<close>, \<open>LazyStar\<close> is
  \<^verbatim>\<open>*?\<close>, \<open>Group n\<close> is the \<open>n\<close>-th capturing group.
\<close>

datatype re =
  Cls "char \<Rightarrow> bool"
  | Eps
  | Eos
  | Seq re re
  | Alt re re
  | Star re
  | LazyStar re
  | Group nat re

type_synonym captures = "(nat \<times> string) list"

text \<open>
  \<open>ms r (s, c)\<close>: every way \<open>r\<close> can match at the front of \<open>s\<close>, as the rest of the input
  after the match and the captures, in the order in which backtracking tries them. An
  iteration of a star that consumes nothing is rejected, as the matcher does.
\<close>

function ms :: "re \<Rightarrow> string \<times> captures \<Rightarrow> (string \<times> captures) list" where
  "ms (Cls P) (s, c) = (case s of [] \<Rightarrow> [] | x # xs \<Rightarrow> if P x then [(xs, c)] else [])"
| "ms Eps (s, c) = [(s, c)]"
| "ms Eos (s, c) = (if s = [] then [(s, c)] else [])"
| "ms (Seq a b) (s, c) = concat (map (ms b) (ms a (s, c)))"
| "ms (Alt a b) (s, c) = ms a (s, c) @ ms b (s, c)"
| "ms (Star a) (s, c) =
     concat (map (ms (Star a)) (filter (\<lambda>(t, d). length t < length s) (ms a (s, c))))
     @ [(s, c)]"
| "ms (LazyStar a) (s, c) =
     (s, c)
     # concat (map (ms (LazyStar a)) (filter (\<lambda>(t, d). length t < length s) (ms a (s, c))))"
| "ms (Group n a) (s, c) =
     map (\<lambda>(t, d). (t, (n, take (length s - length t) s) # d)) (ms a (s, c))"
  by pat_completeness auto
termination
  by (relation "inv_image (less_than <*lex*> less_than) (\<lambda>(r, s, c). (size r, length s))") auto

text \<open>
  \<^verbatim>\<open>re.exec(s)\<close>, \<^verbatim>\<open>s.match(re)\<close>: the first way to match at the leftmost position
  where there is one. The result is the input from the start of the match on, the input
  after the match, and the captures.
\<close>

fun exec :: "re \<Rightarrow> string \<Rightarrow> (string \<times> string \<times> captures) option" where
  "exec r [] = (case ms r ([], []) of [] \<Rightarrow> None | (t, c) # rest \<Rightarrow> Some ([], t, c))"
| "exec r (x # xs) =
     (case ms r (x # xs, []) of [] \<Rightarrow> exec r xs | (t, c) # rest \<Rightarrow> Some (x # xs, t, c))"

text \<open>Building blocks: a literal, a literal under the \<^verbatim>\<open>i\<close> flag, \<^verbatim>\<open>+\<close>.\<close>

definition chr :: "char \<Rightarrow> re" where
  "chr c = Cls (\<lambda>x. x = c)"

fun lit :: "string \<Rightarrow> re" where
  "lit [] = Eps"
| "lit (c # cs) = Seq (chr c) (lit cs)"

text \<open>
  Under the \<^verbatim>\<open>i\<close> flag two code units match when their canonical forms, the upper
  case of each, are equal.
\<close>

definition canonicalize :: "char \<Rightarrow> char" where
  "canonicalize c =
     (let n = (of_char c :: nat)
      in if (97 \<le> n \<and> n \<le> 122) \<or> (224 \<le> n \<and> n \<le> 254 \<and> n \<noteq> 247) then char_of (n - 32) else c)"

fun lit_i :: "string \<Rightarrow> re" where
  "lit_i [] = Eps"
| "lit_i (c # cs) = Seq (Cls (\<lambda>x. canonicalize x = canonicalize c)) (lit_i cs)"

definition oneOrMore :: "re \<Rightarrow> re" where
  "oneOrMore r = Seq r (Star r)"

definition ws :: re where
  "ws = Cls js_space"

definition digit :: re where
  "digit = Cls (\<lambda>c. c \<in> set ''0123456789'')"

definition anychar :: re where
  "anychar = Cls (\<lambda>c. True)"

text \<open>\<^verbatim>\<open>/##\s*Sources\s*\n([\s\S]*?)(?:\n##|$)/i\<close>\<close>

definition sourcesSectionRe :: re where
  "sourcesSectionRe =
     Seq (lit ''##'') (Seq (Star ws) (Seq (lit_i ''Sources'') (Seq (Star ws) (Seq (chr LF)
       (Seq (Group 1 (LazyStar anychar)) (Alt (Seq (chr LF) (lit ''##'')) Eos))))))"

text \<open>\<^verbatim>\<open>/[-*]\s*`([^`]+)`\s*:\s*(\d+)\s*-\s*(\d+)/g\<close>\<close>

definition sourcePattern :: re where
  "sourcePattern =
     Seq (Cls (\<lambda>c. c = CHR ''-'' \<or> c = CHR ''*'')) (Seq (Star ws) (Seq (chr CHR 0x60)
       (Seq (Group 1 (oneOrMore (Cls (\<lambda>c. c \<noteq> CHR 0x60)))) (Seq (chr CHR 0x60) (Seq (Star ws)
         (Seq (chr CHR '':'') (Seq (Star ws) (Seq (Group 2 (oneOrMore digit)) (Seq (Star ws)
           (Seq (chr CHR ''-'') (Seq (Star ws) (Group 3 (oneOrMore digit)))))))))))))"

text \<open>\<^verbatim>\<open>/^DONE\s*\n([\s\S]*)/i\<close>, without its anchor.\<close>

definition doneRe :: re where
  "doneRe = Seq (lit_i ''DONE'') (Seq (Star ws) (Seq (chr LF) (Group 1 (Star anychar))))"


declare ms.simps [simp del]

lemma ms_chars:
  "(t, d) \<in> set (ms r sc) \<Longrightarrow>
     set t \<subseteq> set (fst sc) \<and> length t \<le> length (fst sc)
     \<and> (\<forall>g \<in> set d. g \<in> set (snd sc) \<or> set (snd g) \<subseteq> set (fst sc))"
proof (induction r sc arbitrary: t d rule: ms.induct)
  case (1 P s c)
  then show ?case by (auto simp: ms.simps(1) split: list.splits if_splits)
next
  case (2 s c)
  then show ?case by (auto simp: ms.simps(2))
next
  case (3 s c)
  then show ?case by (auto simp: ms.simps(3) split: if_splits)
next
  case (4 a b s c)
  from 4(3) obtain u e where ue: "(u, e) \<in> set (ms a (s, c))" and td: "(t, d) \<in> set (ms b (u, e))"
    by (auto simp: ms.simps(4))
  from 4(1) [OF ue] have A: "set u \<subseteq> set s" "length u \<le> length s"
    "\<forall>g \<in> set e. g \<in> set c \<or> set (snd g) \<subseteq> set s"
    by auto
  from 4(2) [OF ue td] have B: "set t \<subseteq> set u" "length t \<le> length u"
    "\<forall>g \<in> set d. g \<in> set e \<or> set (snd g) \<subseteq> set u"
    by auto
  from A B show ?case by fastforce
next
  case (5 a b s c)
  from 5(3) have "(t, d) \<in> set (ms a (s, c)) \<or> (t, d) \<in> set (ms b (s, c))"
    by (simp add: ms.simps(5))
  then show ?case
  proof
    assume "(t, d) \<in> set (ms a (s, c))"
    from 5(1) [OF this] show ?thesis .
  next
    assume "(t, d) \<in> set (ms b (s, c))"
    from 5(2) [OF this] show ?thesis .
  qed
next
  case (6 a s c)
  show ?case
  proof (cases "(t, d) = (s, c)")
    case True
    then show ?thesis by auto
  next
    case False
    with 6(3) obtain u e where ue: "(u, e) \<in> set (ms a (s, c))" and lt: "length u < length s"
      and td: "(t, d) \<in> set (ms (Star a) (u, e))"
      by (auto simp: ms.simps(6) [of a s c])
    from 6(1) [OF ue] have A: "set u \<subseteq> set s" "length u \<le> length s"
      "\<forall>g \<in> set e. g \<in> set c \<or> set (snd g) \<subseteq> set s"
      by auto
    from ue lt have "(u, e) \<in> set (filter (\<lambda>(t, d). length t < length s) (ms a (s, c)))"
      by simp
    from 6(2) [OF this td] have B: "set t \<subseteq> set u" "length t \<le> length u"
      "\<forall>g \<in> set d. g \<in> set e \<or> set (snd g) \<subseteq> set u"
      by auto
    from A B show ?thesis by fastforce
  qed
next
  case (7 a s c)
  show ?case
  proof (cases "(t, d) = (s, c)")
    case True
    then show ?thesis by auto
  next
    case False
    with 7(3) obtain u e where ue: "(u, e) \<in> set (ms a (s, c))" and lt: "length u < length s"
      and td: "(t, d) \<in> set (ms (LazyStar a) (u, e))"
      by (auto simp: ms.simps(7) [of a s c])
    from 7(1) [OF ue] have A: "set u \<subseteq> set s" "length u \<le> length s"
      "\<forall>g \<in> set e. g \<in> set c \<or> set (snd g) \<subseteq> set s"
      by auto
    from ue lt have "(u, e) \<in> set (filter (\<lambda>(t, d). length t < length s) (ms a (s, c)))"
      by simp
    from 7(2) [OF this td] have B: "set t \<subseteq> set u" "length t \<le> length u"
      "\<forall>g \<in> set d. g \<in> set e \<or> set (snd g) \<subseteq> set u"
      by auto
    from A B show ?thesis by fastforce
  qed
next
  case (8 n a s c)
  from 8(2) obtain e where te: "(t, e) \<in> set (ms a (s, c))"
    and d: "d = (n, take (length s - length t) s) # e"
    by (auto simp: ms.simps(8))
  from 8(1) [OF te] have A: "set t \<subseteq> set s" "length t \<le> length s"
    "\<forall>g \<in> set e. g \<in> set c \<or> set (snd g) \<subseteq> set s"
    by auto
  have "set (take (length s - length t) s) \<subseteq> set s"
    by (rule set_take_subset)
  with A d show ?case by auto
qed

lemma exec_Some:
  "exec r s = Some (b, t, c) \<Longrightarrow>
     set b \<subseteq> set s \<and> length b \<le> length s \<and> (t, c) \<in> set (ms r (b, []))"
proof (induction s)
  case Nil
  then show ?case by (cases "ms r ([], [])") auto
next
  case (Cons x xs)
  show ?case
  proof (cases "ms r (x # xs, [])")
    case Nil
    with Cons.prems have "exec r xs = Some (b, t, c)" by simp
    from Cons.IH [OF this] show ?thesis by auto
  next
    case (Cons m rest)
    with Cons.prems show ?thesis by (cases m) auto
  qed
qed

lemma exec_None: "(\<And>t. ms r (t, []) = []) \<Longrightarrow> exec r s = None"
  by (induction s) simp_all

lemma ms_sourcePattern_shrinks:
  assumes "(t, d) \<in> set (ms sourcePattern (s, c))"
  shows "length t < length s"
proof -
  obtain A R where sp: "sourcePattern = Seq (Cls A) R"
    by (simp add: sourcePattern_def)
  from assms obtain u e where ue: "(u, e) \<in> set (ms (Cls A) (s, c))"
    and td: "(t, d) \<in> set (ms R (u, e))"
    unfolding sp by (auto simp: ms.simps(4))
  from ue have "length u < length s"
    by (auto simp: ms.simps(1) split: list.splits if_splits)
  moreover from ms_chars [OF td] have "length t \<le> length u"
    by simp
  ultimately show ?thesis by simp
qed

text \<open>
  The loop \<^verbatim>\<open>while ((match = sourcePattern.exec(section)) !== null)\<close>: with the
  \<^verbatim>\<open>g\<close> flag each search starts where the last match ended. Every match of this
  pattern consumes at least its bullet, so the loop ends.
\<close>

function sourceMatches :: "string \<Rightarrow> captures list" where
  "sourceMatches s =
     (case exec sourcePattern s of None \<Rightarrow> [] | Some (b, t, c) \<Rightarrow> c # sourceMatches t)"
  by pat_completeness auto
termination
proof (relation "measure length")
  show "wf (measure length)" by simp
next
  fix s :: string and x2 b y t c
  assume "exec sourcePattern s = Some x2" "(b, y) = x2" "(t, c) = y"
  then have e: "exec sourcePattern s = Some (b, t, c)" by simp
  from exec_Some [OF e] ms_sourcePattern_shrinks [of t c b "[]"]
  show "(t, s) \<in> measure length" by simp
qed

declare sourceMatches.simps [simp del]

lemma ms_sourcePattern_backtick:
  assumes "CHR 0x60 \<notin> set s"
  shows "ms sourcePattern (s, c) = []"
proof (rule ccontr)
  assume "ms sourcePattern (s, c) \<noteq> []"
  then obtain t d where td: "(t, d) \<in> set (ms sourcePattern (s, c))"
    by (cases "ms sourcePattern (s, c)") auto
  obtain A R where sp: "sourcePattern = Seq (Cls A) (Seq (Star ws) (Seq (chr CHR 0x60) R))"
    by (simp add: sourcePattern_def)
  from td obtain u e where ue: "(u, e) \<in> set (ms (Cls A) (s, c))"
    and 1: "(t, d) \<in> set (ms (Seq (Star ws) (Seq (chr CHR 0x60) R)) (u, e))"
    unfolding sp by (auto simp: ms.simps(4))
  from 1 obtain v f where vf: "(v, f) \<in> set (ms (Star ws) (u, e))"
    and 2: "(t, d) \<in> set (ms (Seq (chr CHR 0x60) R) (v, f))"
    by (auto simp: ms.simps(4) [of "Star ws"])
  from 2 obtain w g where wg: "(w, g) \<in> set (ms (chr CHR 0x60) (v, f))"
    by (auto simp: ms.simps(4))
  then have "CHR 0x60 \<in> set v"
    by (auto simp: ms.simps(1) chr_def split: list.splits if_splits)
  moreover from ms_chars [OF ue] ms_chars [OF vf] have "set v \<subseteq> set s"
    by auto
  ultimately show False using assms by auto
qed

lemma sourceMatches_backtick: "CHR 0x60 \<notin> set s \<Longrightarrow> sourceMatches s = []"
proof -
  assume a: "CHR 0x60 \<notin> set s"
  have "exec sourcePattern s = None"
  proof (cases "exec sourcePattern s")
    case None
    then show ?thesis .
  next
    case (Some m)
    obtain b t c where m: "m = (b, t, c)" by (cases m) auto
    from exec_Some [OF Some [unfolded m]] have sub: "set b \<subseteq> set s"
      and mem: "(t, c) \<in> set (ms sourcePattern (b, []))"
      by auto
    from a sub have "CHR 0x60 \<notin> set b" by auto
    from ms_sourcePattern_backtick [OF this, of "[]"] mem show ?thesis by simp
  qed
  then show ?thesis by (simp add: sourceMatches.simps)
qed

section \<open>Citations in markdown\<close>

text \<open>The value of a capturing group; \<open>None\<close> is \<^verbatim>\<open>undefined\<close>.\<close>

definition group :: "captures \<Rightarrow> nat \<Rightarrow> string option" where
  "group c n = map_of c n"

text \<open>
  \<^verbatim>\<open>parseInt(s, 10)\<close> on the digit strings the patterns capture: the value of the
  leading decimal digits, \<open>None\<close> (for \<^verbatim>\<open>NaN\<close>) when there is none.
\<close>

definition digit_value :: "char \<Rightarrow> int" where
  "digit_value c = int (of_char c) - 48"

definition is_digit :: "char \<Rightarrow> bool" where
  "is_digit c = (c \<in> set ''0123456789'')"

definition parseInt10 :: "string \<Rightarrow> int option" where
  "parseInt10 s =
     (let ds = takeWhile is_digit s
      in if ds = [] then None else Some (foldl (\<lambda>v c. 10 * v + digit_value c) 0 ds))"

text \<open>\<^verbatim>\<open>s.trim()\<close>.\<close>

definition trim :: "string \<Rightarrow> string" where
  "trim s = rev (dropWhile js_space (rev (dropWhile js_space s)))"

text \<open>\<open>formatSources\<close> and \<open>parseSourcesFromMarkdown\<close> of \<^verbatim>\<open>agent/verifier.ts\<close>.\<close>

definition formatSources :: "Source list \<Rightarrow> string" where
  "formatSources sources =
     (if sources = [] then ''No sources''
      else join [LF]
        (map (\<lambda>s. ''- '' @ path s @ '':'' @ string_of_int (startLine s) @ ''-''
                  @ string_of_int (endLine s)) sources))"

definition matchToSource :: "captures \<Rightarrow> Source list" where
  "matchToSource m =
     (case (group m 1, group m 2, group m 3) of
        (Some filePath, Some startStr, Some endStr) \<Rightarrow>
          (if filePath = [] \<or> startStr = [] \<or> endStr = [] then []
           else
             (case (parseInt10 startStr, parseInt10 endStr) of
                (Some a, Some b) \<Rightarrow> [\<lparr>path = filePath, startLine = a, endLine = b\<rparr>]
              | other \<Rightarrow> []))
      | other \<Rightarrow> [])"

definition parseSourcesFromMarkdown :: "string \<Rightarrow> Source list" where
  "parseSourcesFromMarkdown answerMd =
     (case exec sourcesSectionRe answerMd of
        None \<Rightarrow> []
      | Some (b, t, caps) \<Rightarrow>
          (let sourcesSection = (case group caps 1 of Some g \<Rightarrow> g | None \<Rightarrow> [])
           in concat (map matchToSource (sourceMatches sourcesSection))))"

text \<open>
  \<open>verifyMarkdownSources\<close> of \<^verbatim>\<open>agent/verifier.ts\<close>: the citations of a markdown answer,
  checked by \<open>verifySources\<close> against the files of the repository.
\<close>

definition verifyMarkdownSources :: "Env \<Rightarrow> string \<Rightarrow> string \<Rightarrow> VerificationResult" where
  "verifyMarkdownSources env answerMd configRepoPath =
     (let sources = parseSourcesFromMarkdown answerMd
      in if length sources = 0 then
           \<lparr>valid = False,
            errors = [''No valid sources found in answer. Format: - `path/to/file`:startLine-endLine'']\<rparr>
         else verifySources env sources configRepoPath)"

lemma digit_char_digit: "d < 10 \<Longrightarrow> digit_char d \<in> set ''0123456789''"
proof -
  assume "d < 10"
  then have "d < length ''0123456789''" by simp
  then show ?thesis unfolding digit_char_def by (rule nth_mem)
qed

lemma string_of_nat_digits: "set (string_of_nat n) \<subseteq> set ''0123456789''"
proof (induction n rule: string_of_nat.induct)
  case (1 n)
  show ?case
  proof (cases "n < 10")
    case True
    then show ?thesis
      using digit_char_digit [of n] by (subst string_of_nat.simps) simp
  next
    case False
    have "n mod 10 < 10" by simp
    from digit_char_digit [OF this] 1 [OF False] False show ?thesis
      by (subst string_of_nat.simps) simp
  qed
qed

lemma string_of_int_no_backtick: "CHR 0x60 \<notin> set (string_of_int i)"
  using string_of_nat_digits [of "nat i"] string_of_nat_digits [of "nat (- i)"]
  by (auto simp: string_of_int_def)

lemma join_chars: "set (join sep xs) \<subseteq> set sep \<union> (\<Union>x \<in> set xs. set x)"
  by (induction sep xs rule: join.induct) auto

lemma formatSources_no_backtick:
  assumes "\<forall>c \<in> set cs. CHR 0x60 \<notin> set (path c)"
  shows "CHR 0x60 \<notin> set (formatSources cs)"
proof (cases "cs = []")
  case True
  then show ?thesis by (simp add: formatSources_def)
next
  case False
  have "CHR 0x60 \<notin> set (''- '' @ path c @ '':'' @ string_of_int (startLine c) @ ''-''
                  @ string_of_int (endLine c))" if "c \<in> set cs" for c
    using that assms string_of_int_no_backtick by simp
  then have "CHR 0x60 \<notin> set [LF] \<union> (\<Union>x \<in> set (map (\<lambda>s. ''- '' @ path s @ '':''
        @ string_of_int (startLine s) @ ''-'' @ string_of_int (endLine s)) cs). set x)"
    by auto
  with join_chars [of "[LF]"] False show ?thesis
    unfolding formatSources_def by (simp only: if_False) blast
qed

lemma parseSourcesFromMarkdown_no_backtick:
  assumes "CHR 0x60 \<notin> set answerMd"
  shows "parseSourcesFromMarkdown answerMd = []"
proof (cases "exec sourcesSectionRe answerMd")
  case None
  then show ?thesis by (simp add: parseSourcesFromMarkdown_def)
next
  case (Some m)
  obtain b t caps where m: "m = (b, t, caps)" by (cases m) auto
  from exec_Some [OF Some [unfolded m]] have sub: "set b \<subseteq> set answerMd"
    and mem: "(t, caps) \<in> set (ms sourcesSectionRe (b, []))"
    by auto
  have "CHR 0x60 \<notin> set (case group caps 1 of Some g \<Rightarrow> g | None \<Rightarrow> [])"
  proof (cases "group caps 1")
    case None
    then show ?thesis by simp
  next
    case (Some g)
    then have "(1, g) \<in> set caps"
      by (simp add: group_def map_of_SomeD)
    with ms_chars [OF mem] have "set g \<subseteq> set b" by fastforce
    with sub assms Some show ?thesis by auto
  qed
  from sourceMatches_backtick [OF this] Some m show ?thesis
    by (simp add: parseSourcesFromMarkdown_def)
qed

text \<open>The capturing groups of an expression, and what a match adds to the captures.\<close>

primrec groups :: "re \<Rightarrow> nat set" where
  "groups (Cls P) = {}"
| "groups Eps = {}"
| "groups Eos = {}"
| "groups (Seq a b) = groups a \<union> groups b"
| "groups (Alt a b) = groups a \<union> groups b"
| "groups (Star a) = groups a"
| "groups (LazyStar a) = groups a"
| "groups (Group n a) = insert n (groups a)"

lemma ms_captures:
  "(t, d) \<in> set (ms r sc) \<Longrightarrow> \<exists>d'. d = d' @ snd sc \<and> fst ` set d' \<subseteq> groups r"
proof (induction r sc arbitrary: t d rule: ms.induct)
  case (1 P s c)
  then show ?case by (auto simp: ms.simps(1) split: list.splits if_splits)
next
  case (2 s c)
  then show ?case by (auto simp: ms.simps(2))
next
  case (3 s c)
  then show ?case by (auto simp: ms.simps(3) split: if_splits)
next
  case (4 a b s c)
  from 4(3) obtain u e where ue: "(u, e) \<in> set (ms a (s, c))" and td: "(t, d) \<in> set (ms b (u, e))"
    by (auto simp: ms.simps(4))
  from 4(1) [OF ue] obtain e' where e': "e = e' @ c" "fst ` set e' \<subseteq> groups a"
    by auto
  from 4(2) [OF ue td] obtain d' where d': "d = d' @ e" "fst ` set d' \<subseteq> groups b"
    by auto
  from e' d' have "d = (d' @ e') @ c \<and> fst ` set (d' @ e') \<subseteq> groups (Seq a b)"
    by auto
  then show ?case by (metis snd_conv)
next
  case (5 a b s c)
  from 5(3) have "(t, d) \<in> set (ms a (s, c)) \<or> (t, d) \<in> set (ms b (s, c))"
    by (simp add: ms.simps(5))
  then show ?case
  proof
    assume "(t, d) \<in> set (ms a (s, c))"
    from 5(1) [OF this] show ?thesis by auto
  next
    assume "(t, d) \<in> set (ms b (s, c))"
    from 5(2) [OF this] show ?thesis by auto
  qed
next
  case (6 a s c)
  show ?case
  proof (cases "(t, d) = (s, c)")
    case True
    then show ?thesis by auto
  next
    case False
    with 6(3) obtain u e where ue: "(u, e) \<in> set (ms a (s, c))" and lt: "length u < length s"
      and td: "(t, d) \<in> set (ms (Star a) (u, e))"
      by (auto simp: ms.simps(6) [of a s c])
    from 6(1) [OF ue] obtain e' where e': "e = e' @ c" "fst ` set e' \<subseteq> groups a"
      by auto
    from ue lt have "(u, e) \<in> set (filter (\<lambda>(t, d). length t < length s) (ms a (s, c)))"
      by simp
    from 6(2) [OF this td] obtain d' where d': "d = d' @ e" "fst ` set d' \<subseteq> groups (Star a)"
      by auto
    from e' d' have "d = (d' @ e') @ c \<and> fst ` set (d' @ e') \<subseteq> groups (Star a)"
      by auto
    then show ?thesis by (metis snd_conv)
  qed
next
  case (7 a s c)
  show ?case
  proof (cases "(t, d) = (s, c)")
    case True
    then show ?thesis by auto
  next
    case False
    with 7(3) obtain u e where ue: "(u, e) \<in> set (ms a (s, c))" and lt: "length u < length s"
      and td: "(t, d) \<in> set (ms (LazyStar a) (u, e))"
      by (auto simp: ms.simps(7) [of a s c])
    from 7(1) [OF ue] obtain e' where e': "e = e' @ c" "fst ` set e' \<subseteq> groups a"
      by auto
    from ue lt have "(u, e) \<in> set (filter (\<lambda>(t, d). length t < length s) (ms a (s, c)))"
      by simp
    from 7(2) [OF this td] obtain d' where d': "d = d' @ e" "fst ` set d' \<subseteq> groups (LazyStar a)"
      by auto
    from e' d' have "d = (d' @ e') @ c \<and> fst ` set (d' @ e') \<subseteq> groups (LazyStar a)"
      by auto
    then show ?thesis by (metis snd_conv)
  qed
next
  case (8 n a s c)
  from 8(2) obtain e where te: "(t, e) \<in> set (ms a (s, c))"
    and d: "d = (n, take (length s - length t) s) # e"
    by (auto simp: ms.simps(8))
  from 8(1) [OF te] obtain e' where e': "e = e' @ c" "fst ` set e' \<subseteq> groups a"
    by auto
  with d have "d = ((n, take (length s - length t) s) # e') @ c
      \<and> fst ` set ((n, take (length s - length t) s) # e') \<subseteq> groups (Group n a)"
    by auto
  then show ?case by (metis snd_conv)
qed

lemma ms_Star_Cls:
  "(t, d) \<in> set (ms (Star (Cls P)) (s, c)) \<Longrightarrow> \<exists>p. s = p @ t \<and> (\<forall>x \<in> set p. P x)"
proof (induction s arbitrary: t d)
  case Nil
  then show ?case by (auto simp: ms.simps(6) [of "Cls P" "[]" c] ms.simps(1))
next
  case (Cons x xs)
  show ?case
  proof (cases "(t, d) = (x # xs, c)")
    case True
    then show ?thesis by auto
  next
    case False
    with Cons.prems have px: "P x" and rec: "(t, d) \<in> set (ms (Star (Cls P)) (xs, c))"
      by (auto simp: ms.simps(6) [of "Cls P" "x # xs" c] ms.simps(1) split: if_splits)
    from Cons.IH [OF rec] obtain p where "xs = p @ t" "\<forall>x \<in> set p. P x" by blast
    with px have "x # xs = (x # p) @ t \<and> (\<forall>y \<in> set (x # p). P y)" by simp
    then show ?thesis by blast
  qed
qed

lemma ms_Group_oneOrMore_Cls:
  assumes "(t, d) \<in> set (ms (Group n (oneOrMore (Cls P))) (s, c))"
  shows "\<exists>p. d = (n, p) # c \<and> p \<noteq> [] \<and> (\<forall>x \<in> set p. P x)"
proof -
  from assms obtain e where te: "(t, e) \<in> set (ms (oneOrMore (Cls P)) (s, c))"
    and d: "d = (n, take (length s - length t) s) # e"
    by (auto simp: ms.simps(8))
  from ms_captures [OF te] have e: "e = c"
    by (simp add: oneOrMore_def)
  from te obtain u f where uf: "(u, f) \<in> set (ms (Cls P) (s, c))"
    and tu: "(t, e) \<in> set (ms (Star (Cls P)) (u, f))"
    by (auto simp: oneOrMore_def ms.simps(4))
  from uf obtain x where x: "s = x # u" "P x"
    by (auto simp: ms.simps(1) split: list.splits if_splits)
  from ms_Star_Cls [OF tu] obtain p where p: "u = p @ t" "\<forall>y \<in> set p. P y" by blast
  from x p have "take (length s - length t) s = x # p" by simp
  with d e x p show ?thesis by auto
qed

lemma ms_sourcePattern_path:
  assumes "(t, d) \<in> set (ms sourcePattern (s, []))"
  shows "\<exists>p. group d 1 = Some p \<and> p \<noteq> [] \<and> CHR 0x60 \<notin> set p"
proof -
  obtain A B C R where sp: "sourcePattern
      = Seq A (Seq B (Seq C (Seq (Group 1 (oneOrMore (Cls (\<lambda>c. c \<noteq> CHR 0x60)))) R)))"
    and g: "groups A = {}" "groups B = {}" "groups C = {}" "1 \<notin> groups R"
    by (simp add: sourcePattern_def oneOrMore_def chr_def ws_def digit_def)
  from assms obtain u1 e1 where 1: "(u1, e1) \<in> set (ms A (s, []))"
    and r1: "(t, d) \<in> set (ms (Seq B (Seq C (Seq (Group 1 (oneOrMore (Cls (\<lambda>c. c \<noteq> CHR 0x60)))) R))) (u1, e1))"
    unfolding sp by (auto simp: ms.simps(4) [of A])
  from r1 obtain u2 e2 where 2: "(u2, e2) \<in> set (ms B (u1, e1))"
    and r2: "(t, d) \<in> set (ms (Seq C (Seq (Group 1 (oneOrMore (Cls (\<lambda>c. c \<noteq> CHR 0x60)))) R)) (u2, e2))"
    by (auto simp: ms.simps(4) [of B])
  from r2 obtain u3 e3 where 3: "(u3, e3) \<in> set (ms C (u2, e2))"
    and r3: "(t, d) \<in> set (ms (Seq (Group 1 (oneOrMore (Cls (\<lambda>c. c \<noteq> CHR 0x60)))) R) (u3, e3))"
    by (auto simp: ms.simps(4) [of C])
  from r3 obtain u4 e4 where 4: "(u4, e4) \<in> set (ms (Group 1 (oneOrMore (Cls (\<lambda>c. c \<noteq> CHR 0x60)))) (u3, e3))"
    and r4: "(t, d) \<in> set (ms R (u4, e4))"
    by (auto simp: ms.simps(4))
  from ms_captures [OF 1] g(1) have "e1 = []" by simp
  with ms_captures [OF 2] g(2) have "e2 = []" by simp
  with ms_captures [OF 3] g(3) have "e3 = []" by simp
  with ms_Group_oneOrMore_Cls [OF 4] obtain p where p: "e4 = [(1, p)]" "p \<noteq> []" "CHR 0x60 \<notin> set p"
    by auto
  from ms_captures [OF r4] obtain d' where d': "d = d' @ e4" "fst ` set d' \<subseteq> groups R"
    by auto
  with g(4) have "map_of d' 1 = None"
    by (auto simp: map_of_eq_None_iff)
  with d' p have "group d 1 = Some p"
    by (simp add: group_def map_add_def [symmetric] map_add_Some_iff)
  with p show ?thesis by blast
qed

lemma sourceMatches_elems:
  "m \<in> set (sourceMatches s) \<Longrightarrow> \<exists>b t. (t, m) \<in> set (ms sourcePattern (b, []))"
proof (induction s rule: sourceMatches.induct)
  case (1 s)
  show ?case
  proof (cases "exec sourcePattern s")
    case None
    with 1(2) show ?thesis by (simp add: sourceMatches.simps [of s])
  next
    case (Some r)
    obtain b t c where r: "r = (b, t, c)" by (cases r) auto
    from 1(2) Some r have "m = c \<or> m \<in> set (sourceMatches t)"
      by (simp add: sourceMatches.simps [of s])
    then show ?thesis
    proof
      assume "m = c"
      with exec_Some [OF Some [unfolded r]] show ?thesis by blast
    next
      assume "m \<in> set (sourceMatches t)"
      from 1(1) [OF Some r [symmetric] refl this] show ?thesis .
    qed
  qed
qed

lemma matchToSource_path:
  assumes "c \<in> set (matchToSource m)" and "group m 1 = Some p"
  shows "path c = p"
  using assms by (auto simp: matchToSource_def split: option.splits if_splits)

lemma parseSourcesFromMarkdown_paths:
  assumes "c \<in> set (parseSourcesFromMarkdown answer)"
  shows "path c \<noteq> [] \<and> CHR 0x60 \<notin> set (path c)"
proof -
  from assms obtain sect m where m: "m \<in> set (sourceMatches sect)" and c: "c \<in> set (matchToSource m)"
    by (auto simp: parseSourcesFromMarkdown_def Let_def split: option.splits)
  from sourceMatches_elems [OF m] obtain b t where "(t, m) \<in> set (ms sourcePattern (b, []))"
    by blast
  from ms_sourcePattern_path [OF this] obtain p where p: "group m 1 = Some p" "p \<noteq> []"
    "CHR 0x60 \<notin> set p"
    by blast
  from matchToSource_path [OF c p(1)] p show ?thesis by simp
qed

text \<open>
  Claim C3, as it is stated, fails: \<open>formatSources\<close> writes \<^verbatim>\<open>- path:start-end\<close>
  lines, with neither the \<^verbatim>\<open>## Sources\<close> header nor the backticks that
  \<open>parseSourcesFromMarkdown\<close> looks for, so a rendered citation parses to nothing.
\<close>

theorem roundtrip_counterexample:
  "(let cs = [\<lparr>path = ''src/index.ts'', startLine = 10, endLine = 25\<rparr>]
    in list_all (\<lambda>c. 1 \<le> startLine c \<and> startLine c \<le> endLine c) cs
       \<and> formatSources cs = ''- src/index.ts:10-25''
       \<and> parseSourcesFromMarkdown (formatSources cs) = []
       \<and> parseSourcesFromMarkdown (formatSources cs) \<noteq> cs)"
  by code_simp

text \<open>
  Claim C3, amended. Parsing the rendered list gives back the list only when the list is
  empty; and for every list of citations whose paths contain no backtick, parsing the
  rendered list returns the empty list.
\<close>

theorem parse_format_sources:
  "(parseSourcesFromMarkdown (formatSources cs) = cs \<longleftrightarrow> cs = [])
   \<and> ((\<forall>c \<in> set cs. CHR 0x60 \<notin> set (path c)) \<longrightarrow> parseSourcesFromMarkdown (formatSources cs) = [])"
proof (intro conjI impI iffI)
  assume a: "\<forall>c \<in> set cs. CHR 0x60 \<notin> set (path c)"
  from parseSourcesFromMarkdown_no_backtick [OF formatSources_no_backtick [OF a]]
  show "parseSourcesFromMarkdown (formatSources cs) = []" .
next
  assume "cs = []"
  then show "parseSourcesFromMarkdown (formatSources cs) = cs"
    using parseSourcesFromMarkdown_no_backtick [OF formatSources_no_backtick [of "[]"]] by simp
next
  assume eq: "parseSourcesFromMarkdown (formatSources cs) = cs"
  have "\<forall>c \<in> set cs. CHR 0x60 \<notin> set (path c)"
  proof
    fix c assume "c \<in> set cs"
    with eq have "c \<in> set (parseSourcesFromMarkdown (formatSources cs))" by simp
    from parseSourcesFromMarkdown_paths [OF this] show "CHR 0x60 \<notin> set (path c)" by simp
  qed
  from parseSourcesFromMarkdown_no_backtick [OF formatSources_no_backtick [OF this]] eq
  show "cs = []" by simp
qed

theorem parse_format_sources_witness:
  "parseSourcesFromMarkdown
     (formatSources [\<lparr>path = ''src/index.ts'', startLine = 10, endLine = 25\<rparr>,
                     \<lparr>path = ''src/utils.ts'', startLine = 1, endLine = 15\<rparr>]) = []
   \<and> parseSourcesFromMarkdown
       (formatSources [\<lparr>path = ''src/index.ts'', startLine = 10, endLine = 25\<rparr>,
                       \<lparr>path = ''src/utils.ts'', startLine = 1, endLine = 15\<rparr>])
       \<noteq> [\<lparr>path = ''src/index.ts'', startLine = 10, endLine = 25\<rparr>,
          \<lparr>path = ''src/utils.ts'', startLine = 1, endLine = 15\<rparr>]
   \<and> parseSourcesFromMarkdown (formatSources []) = []"
  using parse_format_sources [of "[\<lparr>path = ''src/index.ts'', startLine = 10, endLine = 25\<rparr>,
                     \<lparr>path = ''src/utils.ts'', startLine = 1, endLine = 15\<rparr>]"]
    parse_format_sources [of "[]"]
  by simp

section \<open>The agent loop of \<^verbatim>\<open>agent/loop.ts\<close>\<close>

text \<open>
  Truthiness of an optional string, as \<^verbatim>\<open>if (content)\<close> tests it: neither
  \<^verbatim>\<open>undefined\<close> nor the empty string.
\<close>

definition truthy :: "string option \<Rightarrow> bool" where
  "truthy v = (case v of None \<Rightarrow> False | Some s \<Rightarrow> s \<noteq> [])"

record ToolCallResult =
  tc_id :: string
  tc_name :: string
  argumentsJson :: string

datatype ResponseType = TOOL_CALLS | DONE | ERROR

record ParsedLLMResponse =
  p_type :: ResponseType
  p_toolCalls :: "ToolCallResult list option"
  p_answerMd :: "string option"
  p_rawContent :: "string option"
  p_error :: "string option"

definition parseResponse :: "string option \<Rightarrow> ToolCallResult list option \<Rightarrow> ParsedLLMResponse" where
  "parseResponse content toolCalls =
     (if (case toolCalls of None \<Rightarrow> False | Some tcs \<Rightarrow> length tcs > 0) then
        \<lparr>p_type = TOOL_CALLS, p_toolCalls = toolCalls, p_answerMd = None,
         p_rawContent = content, p_error = None\<rparr>
      else
        (let unclear =
               \<lparr>p_type = ERROR, p_toolCalls = None, p_answerMd = None, p_rawContent = content,
                p_error = Some ''LLM response was neither a tool call nor a valid DONE answer''\<rparr>
         in case content of
              None \<Rightarrow> unclear
            | Some txt \<Rightarrow>
                if txt = [] then unclear
                else
                  (case ms doneRe (txt, []) of
                     (t, caps) # others \<Rightarrow>
                       \<lparr>p_type = DONE, p_toolCalls = None,
                        p_answerMd = Some (case group caps 1 of Some g \<Rightarrow> trim g | None \<Rightarrow> []),
                        p_rawContent = content, p_error = None\<rparr>
                   | [] \<Rightarrow>
                       if str_includes txt ''## Sources'' \<and> str_includes txt [CHR 0x60] then
                         \<lparr>p_type = DONE, p_toolCalls = None, p_answerMd = Some txt,
                          p_rawContent = content, p_error = None\<rparr>
                       else unclear)))"

record SourceVerificationResult =
  sv_valid :: bool
  sv_sources :: "Source list"
  sv_errors :: "string list"

text \<open>
  One round of the loop over the matches in \<open>verifySourcesInAnswer\<close>; the state is
  \<open>(errors, sources)\<close>.
\<close>

definition verifyMatch :: "captures \<Rightarrow> string list \<times> Source list \<Rightarrow> string list \<times> Source list" where
  "verifyMatch m acc =
     (case acc of (errs, srcs) \<Rightarrow>
        (case (group m 1, group m 2, group m 3) of
           (Some filePath, Some startStr, Some endStr) \<Rightarrow>
             (if filePath = [] \<or> startStr = [] \<or> endStr = [] then (errs, srcs)
              else
                (case (parseInt10 startStr, parseInt10 endStr) of
                   (Some a, Some b) \<Rightarrow>
                     if a < 1 \<or> b < a then
                       (errs @ [''Invalid line range for '' @ filePath @ '': '' @ string_of_int a
                                  @ ''-'' @ string_of_int b], srcs)
                     else (errs, srcs @ [\<lparr>path = filePath, startLine = a, endLine = b\<rparr>])
                 | other \<Rightarrow> (errs @ [''Invalid line numbers for '' @ filePath], srcs)))
         | other \<Rightarrow> (errs, srcs)))"

text \<open>\<open>verifySourcesInAnswer\<close>; its second argument, the repository root, is never read.\<close>

definition verifySourcesInAnswer :: "string \<Rightarrow> string \<Rightarrow> SourceVerificationResult" where
  "verifySourcesInAnswer answerMd repoRoot =
     (case exec sourcesSectionRe answerMd of
        None \<Rightarrow>
          \<lparr>sv_valid = False, sv_sources = [],
           sv_errors = [''Missing '' @ [CHR 0x22] @ ''## Sources'' @ [CHR 0x22] @ '' section in answer'']\<rparr>
      | Some (b, t, caps) \<Rightarrow>
          (let sourcesSection = (case group caps 1 of Some g \<Rightarrow> g | None \<Rightarrow> []);
               matches = sourceMatches sourcesSection;
               foundAny = (matches \<noteq> [])
           in case foldl (\<lambda>acc m. verifyMatch m acc) ([], []) matches of
                (errs, srcs) \<Rightarrow>
                  (let errors' =
                         (if \<not> foundAny then
                            errs @ [''No valid sources found. Format must be: - `path/to/file`:startLine-endLine'']
                          else errs)
                   in \<lparr>sv_valid = (length errors' = 0 \<and> length srcs > 0),
                       sv_sources = srcs, sv_errors = errors'\<rparr>)))"

definition truncateOutput :: "string \<Rightarrow> int \<Rightarrow> string" where
  "truncateOutput output maxChars =
     (if int (length output) \<le> maxChars then output
      else
        (let halfLimit = maxChars div 2 - 50;
             head = js_slice 0 halfLimit output;
             tail = js_slice (- halfLimit) (int (length output)) output
         in head @ [LF, LF] @ ''... ['' @ string_of_int (int (length output) - maxChars)
            @ '' characters truncated] ...'' @ [LF, LF] @ tail))"

text \<open>The templates of \<^verbatim>\<open>agent/prompt.ts\<close> that the loop fills in on its way.\<close>

definition generateRepairPrompt :: "string list \<Rightarrow> string" where
  "generateRepairPrompt errs =
     ''Your answer was REJECTED because it lacks proper source citations.'' @ [LF, LF]
     @ ''Errors:'' @ [LF]
     @ join [LF] (map (\<lambda>e. ''- '' @ e) errs) @ [LF, LF]
     @ ''You MUST:'' @ [LF]
     @ ''1. Use tools to find and examine relevant code'' @ [LF]
     @ ''2. Provide a new answer with a proper '' @ [CHR 0x22] @ ''## Sources'' @ [CHR 0x22]
     @ '' section'' @ [LF]
     @ ''3. Each source must be in format: `- '' @ [CHR 0x5C] @ ''`file/path'' @ [CHR 0x5C]
     @ ''`:startLine-endLine`'' @ [LF, LF]
     @ ''Use search_chunks or get_excerpt to gather evidence, then provide your answer with DONE.''"

definition generateForcedTerminationPrompt :: "nat \<Rightarrow> string list \<Rightarrow> string" where
  "generateForcedTerminationPrompt stepCount gatheredEvidence =
     ''Maximum steps ('' @ string_of_nat stepCount
     @ '') reached. You must provide your best answer NOW with the evidence gathered.'' @ [LF, LF]
     @ ''Evidence gathered so far:'' @ [LF]
     @ (if length gatheredEvidence > 0 then join [LF] gatheredEvidence else ''(No evidence gathered)'')
     @ [LF, LF]
     @ ''Respond with DONE + your best answer based on available evidence.'' @ [LF]
     @ ''If you have any sources from your examination, include them in the ## Sources section.'' @ [LF]
     @ ''If you have no sources, explain that the question could not be fully answered due to step limit.''"

definition formatToolDescriptions :: "'s ToolSchema list \<Rightarrow> string" where
  "formatToolDescriptions ts =
     join [LF] (map (\<lambda>t. ''- **'' @ ts_name t @ ''**: '' @ ts_description t) ts)"

text \<open>The transcript.\<close>

datatype Role = System | User | Assistant | Tool

record ContextMessage =
  role :: Role
  content :: string
  toolCallId :: "string option"
  toolCalls :: "ToolCallResult list option"

record 's ChatRequest =
  req_messages :: "ContextMessage list"
  req_tools :: "'s ToolSchema list"
  req_toolChoice :: "string option"

record ChatResponse =
  assistantText :: "string option"
  resp_toolCalls :: "ToolCallResult list option"

text \<open>
  The step log and the result of a run. The two wall-clock fields, \<open>elapsedMs\<close> and
  \<open>totalMs\<close>, are left out.
\<close>

record StepLog =
  stepNo :: nat
  toolName :: "string option"
  toolInput :: "string option"
  toolOutputSummary :: "string option"
  modelMessageSummary :: string
  isDone :: bool
  verifierPassed :: "bool option"
  verifierErrors :: "string list option"

record AgentLoopResult =
  answerMd :: string
  steps :: "StepLog list"
  sources :: "Source list"
  verified :: bool
  run_error :: "string option"

text \<open>
  The configuration. The provider is a function on an explicit provider state \<open>'p\<close>:
  \<open>llmProvider config p request\<close> is the response, or \<open>Inl m\<close> when the call throws an
  error that prints as \<open>m\<close>, and the provider's next state. The three budgets are
  optional, as in the source; the step budget is a natural number. The flag \<open>verbose\<close>
  and the path \<open>dbPath\<close>, which only steer logging and the index database, are left out.
\<close>

record ('p, 's) AgentLoopConfig =
  repoRoot :: string
  question :: string
  llmProvider :: "'p \<Rightarrow> 's ChatRequest \<Rightarrow> (string + ChatResponse) \<times> 'p"
  maxSteps :: "nat option"
  maxExcerptLines :: "nat option"
  maxToolOutputChars :: "int option"

text \<open>
  What \<open>runAgent\<close> takes from its surroundings: \<^verbatim>\<open>JSON.parse\<close>, the registry that
  \<open>createToolRegistry\<close> builds (any registry, here), and the system prompt template
  \<open>generateSystemPrompt\<close> of \<^verbatim>\<open>prompt.ts\<close>, a fixed text around its three arguments.
\<close>

record ('j, 'a, 'd, 's) World =
  jsonParse :: "string \<Rightarrow> string + 'j"
  toolRegistry :: "('j, 'a, 'd, 's) ToolRegistry"
  generateSystemPrompt :: "nat \<Rightarrow> nat \<Rightarrow> string \<Rightarrow> string"

text \<open>
  The calls a run makes, in order: a model call of the loop at a step, a tool execution
  at a step, the model call of the forced termination. The code keeps no such list; the
  model keeps it so that the order of calls can be stated.
\<close>

datatype 's Event =
  LoopChat nat "'s ChatRequest"
  | ToolExec nat string string
  | ForcedChat "'s ChatRequest"

text \<open>The local variables of \<open>runAgent\<close>, the provider's state and the list of calls.\<close>

record ('p, 's) AgentState =
  messages :: "ContextMessage list"
  st_steps :: "StepLog list"
  gatheredEvidence :: "string list"
  finalAnswer :: "string option"
  st_verified :: bool
  verifiedSources :: "Source list"
  st_error :: "string option"
  provider :: 'p
  calls :: "'s Event list"

text \<open>The defaults of \<open>DEFAULT_AGENT_LOOP_CONFIG\<close>.\<close>

definition maxStepsOf :: "('p, 's) AgentLoopConfig \<Rightarrow> nat" where
  "maxStepsOf config = (case maxSteps config of None \<Rightarrow> 8 | Some n \<Rightarrow> n)"

definition maxExcerptLinesOf :: "('p, 's) AgentLoopConfig \<Rightarrow> nat" where
  "maxExcerptLinesOf config = (case maxExcerptLines config of None \<Rightarrow> 120 | Some n \<Rightarrow> n)"

definition maxToolOutputCharsOf :: "('p, 's) AgentLoopConfig \<Rightarrow> int" where
  "maxToolOutputCharsOf config = (case maxToolOutputChars config of None \<Rightarrow> 8000 | Some n \<Rightarrow> n)"

text \<open>
  The inner loop \<^verbatim>\<open>for (const toolCall of parsed.toolCalls)\<close> at step \<open>currentStep\<close>.
  The result is the state, and \<open>Some m\<close> when \<open>executeToolCall\<close> threw an error printing as
  \<open>m\<close>, which ends the loop and is left to the \<^verbatim>\<open>catch\<close> of the step.
\<close>

fun runToolCalls ::
  "('j, 'a, 'd, 's) World \<Rightarrow> int \<Rightarrow> nat \<Rightarrow> ToolCallResult list \<Rightarrow> ('p, 's) AgentState
     \<Rightarrow> string option \<times> ('p, 's) AgentState" where
  "runToolCalls w maxChars currentStep [] st = (None, st)"
| "runToolCalls w maxChars currentStep (toolCall # rest) st =
     (let st0 = st\<lparr>calls := calls st
                    @ [ToolExec currentStep (tc_name toolCall) (argumentsJson toolCall)]\<rparr>
      in case executeToolCall (jsonParse w) (toolRegistry w) (tc_name toolCall)
                (Inl (argumentsJson toolCall)) of
           Inl m \<Rightarrow> (Some m, st0)
         | Inr toolResult \<Rightarrow>
             (let truncatedOutput = truncateOutput (outputSummary toolResult) maxChars;
                  st1 = st0\<lparr>gatheredEvidence :=
                          (if success toolResult then
                             gatheredEvidence st0
                             @ [''['' @ tc_name toolCall @ ''] '' @ js_slice 0 200 truncatedOutput @ ''...'']
                           else gatheredEvidence st0)\<rparr>;
                  st2 = st1\<lparr>messages := messages st1
                          @ [\<lparr>role = Tool, content = truncatedOutput,
                              toolCallId = Some (tc_id toolCall), toolCalls = None\<rparr>]\<rparr>;
                  st3 = st2\<lparr>st_steps := st_steps st2
                          @ [\<lparr>stepNo = currentStep, toolName = Some (tc_name toolCall),
                              toolInput = Some (argumentsJson toolCall),
                              toolOutputSummary = Some (js_slice 0 500 truncatedOutput),
                              modelMessageSummary = ''Called '' @ tc_name toolCall,
                              isDone = False, verifierPassed = None, verifierErrors = None\<rparr>]\<rparr>
              in runToolCalls w maxChars currentStep rest st3))"

text \<open>How a round of the main loop ends.\<close>

datatype Flow = Continue | Break

text \<open>The step pushed by the \<^verbatim>\<open>catch\<close> of the main loop.\<close>

definition errorStep :: "nat \<Rightarrow> string \<Rightarrow> StepLog" where
  "errorStep currentStep m =
     \<lparr>stepNo = currentStep, toolName = None, toolInput = None, toolOutputSummary = None,
      modelMessageSummary = ''Error: '' @ m, isDone = False, verifierPassed = None,
      verifierErrors = None\<rparr>"

text \<open>
  The three ways a round of the main loop handles a response that is not an error: tool
  calls, a final answer, anything else. \<open>st0\<close> is the state after the model call.
\<close>

definition handleToolCalls ::
  "('j, 'a, 'd, 's) World \<Rightarrow> ('p, 's) AgentLoopConfig \<Rightarrow> nat \<Rightarrow> ParsedLLMResponse
     \<Rightarrow> ('p, 's) AgentState \<Rightarrow> Flow \<times> ('p, 's) AgentState" where
  "handleToolCalls w config currentStep parsed st0 =
     (let st1 = st0\<lparr>messages := messages st0
                   @ [\<lparr>role = Assistant,
                       content = (case p_rawContent parsed of None \<Rightarrow> [] | Some c \<Rightarrow> c),
                       toolCallId = None, toolCalls = p_toolCalls parsed\<rparr>]\<rparr>
      in case runToolCalls w (maxToolOutputCharsOf config) currentStep
                (case p_toolCalls parsed of None \<Rightarrow> [] | Some tcs \<Rightarrow> tcs) st1 of
           (None, st2) \<Rightarrow> (Continue, st2)
         | (Some m, st2) \<Rightarrow>
             (Break, st2\<lparr>st_error := Some m,
                         st_steps := st_steps st2 @ [errorStep currentStep m]\<rparr>))"

definition handleDone ::
  "('p, 's) AgentLoopConfig \<Rightarrow> nat \<Rightarrow> ParsedLLMResponse \<Rightarrow> ('p, 's) AgentState
     \<Rightarrow> Flow \<times> ('p, 's) AgentState" where
  "handleDone config currentStep parsed st0 =
     (let answer = (case p_answerMd parsed of None \<Rightarrow> [] | Some a \<Rightarrow> a);
          verification = verifySourcesInAnswer answer (repoRoot config);
          st1 = st0\<lparr>st_steps := st_steps st0
                  @ [\<lparr>stepNo = currentStep, toolName = None, toolInput = None,
                      toolOutputSummary = None,
                      modelMessageSummary = ''Provided final answer'', isDone = True,
                      verifierPassed = Some (sv_valid verification),
                      verifierErrors = Some (sv_errors verification)\<rparr>]\<rparr>
      in if sv_valid verification then
           (Break, st1\<lparr>finalAnswer := Some answer, st_verified := True,
                       verifiedSources := sv_sources verification\<rparr>)
         else
           (Continue, st1\<lparr>messages := messages st1
              @ [\<lparr>role = Assistant, content = ''DONE'' @ [LF, LF] @ answer,
                  toolCallId = None, toolCalls = None\<rparr>,
                 \<lparr>role = User, content = generateRepairPrompt (sv_errors verification),
                  toolCallId = None, toolCalls = None\<rparr>]\<rparr>))"

definition handleUnexpected ::
  "nat \<Rightarrow> ParsedLLMResponse \<Rightarrow> ('p, 's) AgentState \<Rightarrow> Flow \<times> ('p, 's) AgentState" where
  "handleUnexpected currentStep parsed st0 =
     (Continue, st0\<lparr>st_steps := st_steps st0
        @ [\<lparr>stepNo = currentStep, toolName = None, toolInput = None,
            toolOutputSummary = None,
            modelMessageSummary =
              (case p_rawContent parsed of
                 None \<Rightarrow> ''Empty response'' | Some c \<Rightarrow> js_slice 0 200 c),
            isDone = False, verifierPassed = None, verifierErrors = None\<rparr>]\<rparr>)"

text \<open>The classification of a response, and the branch taken.\<close>

definition handleResponse ::
  "('j, 'a, 'd, 's) World \<Rightarrow> ('p, 's) AgentLoopConfig \<Rightarrow> nat \<Rightarrow> ChatResponse
     \<Rightarrow> ('p, 's) AgentState \<Rightarrow> Flow \<times> ('p, 's) AgentState" where
  "handleResponse w config currentStep response st0 =
     (let parsed = parseResponse (assistantText response) (resp_toolCalls response)
      in if p_type parsed = ERROR then (Break, st0\<lparr>st_error := p_error parsed\<rparr>)
         else if p_type parsed = TOOL_CALLS
                 \<and> (case p_toolCalls parsed of None \<Rightarrow> False | Some tcs \<Rightarrow> length tcs > 0) then
           handleToolCalls w config currentStep parsed st0
         else if p_type parsed = DONE \<and> truthy (p_answerMd parsed) then
           handleDone config currentStep parsed st0
         else handleUnexpected currentStep parsed st0)"

text \<open>
  The body of \<^verbatim>\<open>while (currentStep < maxSteps)\<close>, after \<^verbatim>\<open>currentStep++\<close>:
  the model call, then the handling of its response, or the \<^verbatim>\<open>catch\<close> when the
  call throws.
\<close>

definition loopBody ::
  "('j, 'a, 'd, 's) World \<Rightarrow> ('p, 's) AgentLoopConfig \<Rightarrow> nat \<Rightarrow> ('p, 's) AgentState
     \<Rightarrow> Flow \<times> ('p, 's) AgentState" where
  "loopBody w config currentStep st =
     (let request = \<lparr>req_messages = messages st, req_tools = getToolSchemas (toolRegistry w),
                     req_toolChoice = Some ''auto''\<rparr>
      in case llmProvider config (provider st) request of
           (Inl m, p') \<Rightarrow>
             (let st0 = st\<lparr>provider := p', calls := calls st @ [LoopChat currentStep request]\<rparr>
              in (Break, st0\<lparr>st_error := Some m,
                             st_steps := st_steps st0 @ [errorStep currentStep m]\<rparr>))
         | (Inr response, p') \<Rightarrow>
             handleResponse w config currentStep response
               (st\<lparr>provider := p', calls := calls st @ [LoopChat currentStep request]\<rparr>))"

text \<open>
  The main loop, entered with \<open>currentStep\<close> steps taken. It returns the number of steps
  taken and the state when the loop is left.
\<close>

function agentLoop ::
  "('j, 'a, 'd, 's) World \<Rightarrow> ('p, 's) AgentLoopConfig \<Rightarrow> nat \<Rightarrow> ('p, 's) AgentState
     \<Rightarrow> nat \<times> ('p, 's) AgentState" where
  "agentLoop w config currentStep st =
     (if currentStep < maxStepsOf config then
        (case loopBody w config (currentStep + 1) st of
           (Break, st') \<Rightarrow> (currentStep + 1, st')
         | (Continue, st') \<Rightarrow> agentLoop w config (currentStep + 1) st')
      else (currentStep, st))"
  by pat_completeness auto
termination
  by (relation "measure (\<lambda>(w, config, currentStep, st). maxStepsOf config - currentStep)") auto

declare agentLoop.simps [simp del]

text \<open>The answer put together when the forced termination produced none.\<close>

definition fallbackAnswer :: "nat \<Rightarrow> string list \<Rightarrow> string" where
  "fallbackAnswer n evidence =
     ''Unable to fully answer the question within '' @ string_of_nat n @ '' steps.'' @ [LF, LF]
     @ ''## Partial Information'' @ [LF, LF]
     @ (if join [LF] evidence = [] then ''No evidence gathered.'' else join [LF] evidence)
     @ [LF, LF] @ ''## Sources'' @ [LF, LF] @ ''(No verified sources available)''"

text \<open>
  \<^verbatim>\<open>if (!verified && !error) { if (currentStep >= maxSteps) { ... } }\<close>: one last
  model call without tools; an error it throws is ignored.
\<close>

definition forcedTermination ::
  "('p, 's) AgentLoopConfig \<Rightarrow> nat \<times> ('p, 's) AgentState \<Rightarrow> ('p, 's) AgentState" where
  "forcedTermination config loopEnd =
     (case loopEnd of (currentStep, st) \<Rightarrow>
        if \<not> st_verified st \<and> \<not> truthy (st_error st) then
          (if currentStep \<ge> maxStepsOf config then
             (let st1 = st\<lparr>messages := messages st
                          @ [\<lparr>role = User,
                              content = generateForcedTerminationPrompt (maxStepsOf config)
                                          (gatheredEvidence st),
                              toolCallId = None, toolCalls = None\<rparr>]\<rparr>;
                  request = \<lparr>req_messages = messages st1, req_tools = [], req_toolChoice = None\<rparr>;
                  st2 =
                    (case llmProvider config (provider st1) request of
                       (Inl m, p') \<Rightarrow> st1\<lparr>provider := p', calls := calls st1 @ [ForcedChat request]\<rparr>
                     | (Inr response, p') \<Rightarrow>
                         (let st' = st1\<lparr>provider := p', calls := calls st1 @ [ForcedChat request]\<rparr>
                          in if truthy (assistantText response) then
                               (let parsed = parseResponse (assistantText response) None
                                in if truthy (p_answerMd parsed) then
                                     (let answer = (case p_answerMd parsed of None \<Rightarrow> [] | Some a \<Rightarrow> a);
                                          verification = verifySourcesInAnswer answer (repoRoot config)
                                      in st'\<lparr>finalAnswer := Some answer,
                                             st_verified := sv_valid verification,
                                             verifiedSources := sv_sources verification\<rparr>)
                                   else st'\<lparr>finalAnswer := assistantText response\<rparr>)
                             else st'))
              in if \<not> truthy (finalAnswer st2) then
                   st2\<lparr>finalAnswer := Some (fallbackAnswer (maxStepsOf config) (gatheredEvidence st2)),
                       st_error := Some (''Max steps ('' @ string_of_nat (maxStepsOf config)
                                         @ '') exceeded'')\<rparr>
                 else st2)
           else st)
        else st)"

definition initialState ::
  "('j, 'a, 'd, 's) World \<Rightarrow> ('p, 's) AgentLoopConfig \<Rightarrow> 'p \<Rightarrow> ('p, 's) AgentState" where
  "initialState w config p0 =
     \<lparr>messages =
        [\<lparr>role = System,
          content = generateSystemPrompt w (maxStepsOf config) (maxExcerptLinesOf config)
                      (formatToolDescriptions (getToolSchemas (toolRegistry w))),
          toolCallId = None, toolCalls = None\<rparr>,
         \<lparr>role = User, content = question config, toolCallId = None, toolCalls = None\<rparr>],
      st_steps = [], gatheredEvidence = [], finalAnswer = None, st_verified = False,
      verifiedSources = [], st_error = None, provider = p0, calls = []\<rparr>"

text \<open>
  A run, from the provider state \<open>p0\<close>: the state at the \<^verbatim>\<open>return\<close>, and the
  result returned. The run is modelled from the first prompt to the return; the opening
  of the index database before it and its closing after it are not.
\<close>

definition agentRun ::
  "('j, 'a, 'd, 's) World \<Rightarrow> ('p, 's) AgentLoopConfig \<Rightarrow> 'p \<Rightarrow> ('p, 's) AgentState" where
  "agentRun w config p0 = forcedTermination config (agentLoop w config 0 (initialState w config p0))"

definition runAgent ::
  "('j, 'a, 'd, 's) World \<Rightarrow> ('p, 's) AgentLoopConfig \<Rightarrow> 'p \<Rightarrow> AgentLoopResult" where
  "runAgent w config p0 =
     (let st = agentRun w config p0
      in \<lparr>answerMd = (case finalAnswer st of None \<Rightarrow> ''No answer generated'' | Some a \<Rightarrow> a),
          steps = st_steps st,
          sources = verifiedSources st,
          verified = st_verified st,
          run_error = st_error st\<rparr>)"

text \<open>Examples: a world with the example registry, and a provider that plays a script.\<close>

definition exampleWorld :: "(json, GetExcerptArgs, ExcerptResult, unit) World" where
  "exampleWorld =
     \<lparr>jsonParse = exampleJsonParse, toolRegistry = exampleRegistry,
      generateSystemPrompt = (\<lambda>maxSteps maxExcerptLines toolDescriptions.
        ''You are RepoWiki.'' @ [LF] @ toolDescriptions)\<rparr>"

text \<open>
  The scripted provider answers its \<open>n\<close>-th call with the \<open>n\<close>-th response of the script
  and throws when the script is used up; its state is the number of calls so far.
\<close>

definition scripted :: "ChatResponse list \<Rightarrow> nat \<Rightarrow> unit ChatRequest \<Rightarrow> (string + ChatResponse) \<times> nat" where
  "scripted script n request =
     (if n < length script then (Inr (script ! n), n + 1) else (Inl ''script exhausted'', n + 1))"

definition exampleConfig :: "ChatResponse list \<Rightarrow> nat \<Rightarrow> (nat, unit) AgentLoopConfig" where
  "exampleConfig script n =
     \<lparr>repoRoot = ''/home/repo'', question = ''What does foo do?'',
      llmProvider = scripted script, maxSteps = Some n, maxExcerptLines = None,
      maxToolOutputChars = None\<rparr>"

definition callFrobnicate :: "string \<Rightarrow> ToolCallResult" where
  "callFrobnicate i = \<lparr>tc_id = i, tc_name = ''frobnicate'', argumentsJson = ''{}''\<rparr>"

definition toolCallsResponse :: "ToolCallResult list \<Rightarrow> ChatResponse" where
  "toolCallsResponse tcs = \<lparr>assistantText = None, resp_toolCalls = Some tcs\<rparr>"

definition textResponse :: "string \<Rightarrow> ChatResponse" where
  "textResponse t = \<lparr>assistantText = Some t, resp_toolCalls = None\<rparr>"

definition doneMissing :: string where
  "doneMissing = ''DONE'' @ [LF, LF] @ ''Answer.'' @ [LF, LF] @ ''## Sources'' @ [LF] @ ''- `missing.ts`:1-2''"

definition doneBeyond :: string where
  "doneBeyond = ''DONE'' @ [LF, LF] @ ''Answer.'' @ [LF, LF] @ ''## Sources'' @ [LF] @ ''- `foo.ts`:1-99''"




lemma executeToolCall_Inr: "\<exists>r. executeToolCall jp reg n a = Inr r"
  by (simp add: executeToolCall_def Let_def split: option.splits sum.splits)

text \<open>What the inner loop leaves alone, and what it adds.\<close>

lemma runToolCalls_frame:
  "runToolCalls w mx n tcs st = (r, st') \<Longrightarrow>
     finalAnswer st' = finalAnswer st \<and> st_verified st' = st_verified st
     \<and> verifiedSources st' = verifiedSources st \<and> st_error st' = st_error st
     \<and> provider st' = provider st"
proof (induction tcs arbitrary: st)
  case Nil
  then show ?case by simp
next
  case (Cons tc tcs)
  show ?case
  proof (cases "executeToolCall (jsonParse w) (toolRegistry w) (tc_name tc) (Inl (argumentsJson tc))")
    case (Inl m)
    with Cons.prems show ?thesis by (auto simp: Let_def)
  next
    case (Inr toolResult)
    with Cons.prems show ?thesis
      by (auto simp: Let_def dest!: Cons.IH)
  qed
qed

lemma runToolCalls_steps:
  "runToolCalls w mx n tcs st = (r, st') \<Longrightarrow>
     length (st_steps st') + (case r of None \<Rightarrow> 0 | Some m \<Rightarrow> 1) \<le> length (st_steps st) + length tcs"
proof (induction tcs arbitrary: st)
  case Nil
  then show ?case by simp
next
  case (Cons tc tcs)
  show ?case
  proof (cases "executeToolCall (jsonParse w) (toolRegistry w) (tc_name tc) (Inl (argumentsJson tc))")
    case (Inl m)
    with Cons.prems show ?thesis by (auto simp: Let_def)
  next
    case (Inr toolResult)
    with Cons.prems show ?thesis
      by (auto simp: Let_def dest!: Cons.IH)
  qed
qed

fun loopEvent :: "nat \<Rightarrow> 's Event \<Rightarrow> bool" where
  "loopEvent m (LoopChat n request) = (1 \<le> n \<and> n \<le> m)"
| "loopEvent m (ToolExec n tn aj) = (1 \<le> n \<and> n \<le> m)"
| "loopEvent m (ForcedChat request) = False"

lemma runToolCalls_calls:
  "runToolCalls w mx n tcs st = (r, st') \<Longrightarrow> 1 \<le> n \<Longrightarrow> n \<le> m \<Longrightarrow>
     \<exists>es. calls st' = calls st @ es \<and> list_all (loopEvent m) es"
proof (induction tcs arbitrary: st)
  case Nil
  then show ?case by simp
next
  case (Cons tc tcs)
  show ?case
  proof (cases "executeToolCall (jsonParse w) (toolRegistry w) (tc_name tc) (Inl (argumentsJson tc))")
    case (Inl m)
    with Cons.prems show ?thesis by (auto simp: Let_def)
  next
    case (Inr toolResult)
    with Cons.prems obtain st3 where rec: "runToolCalls w mx n tcs st3 = (r, st')"
      and c3: "calls st3 = calls st @ [ToolExec n (tc_name tc) (argumentsJson tc)]"
      by (auto simp: Let_def)
    from Cons.IH [OF rec Cons.prems(2,3)] obtain es where
      "calls st' = calls st3 @ es" "list_all (loopEvent m) es"
      by blast
    with c3 Cons.prems(2,3) show ?thesis
      by (intro exI [of _ "ToolExec n (tc_name tc) (argumentsJson tc) # es"]) simp
  qed
qed

text \<open>Every citation that \<open>verifySourcesInAnswer\<close> returns has passed its range check.\<close>

definition rangeOk :: "Source \<Rightarrow> bool" where
  "rangeOk c = (1 \<le> startLine c \<and> startLine c \<le> endLine c)"

lemma verifyMatch_range:
  "list_all rangeOk (snd acc) \<Longrightarrow> list_all rangeOk (snd (verifyMatch m acc))"
  by (cases acc)
    (auto simp: verifyMatch_def rangeOk_def split: option.splits prod.splits if_splits)

lemma foldl_verifyMatch_range:
  "list_all rangeOk (snd acc) \<Longrightarrow>
     list_all rangeOk (snd (foldl (\<lambda>acc m. verifyMatch m acc) acc matches))"
  by (induction matches arbitrary: acc) (simp_all add: verifyMatch_range)

lemma verifySourcesInAnswer_range:
  "list_all rangeOk (sv_sources (verifySourcesInAnswer ans r))"
proof (cases "exec sourcesSectionRe ans")
  case None
  then show ?thesis by (simp add: verifySourcesInAnswer_def)
next
  case (Some m)
  obtain b t caps where m: "m = (b, t, caps)" by (cases m) auto
  define sect where "sect = (case group caps 1 of Some g \<Rightarrow> g | None \<Rightarrow> [])"
  obtain errs srcs where f: "foldl (\<lambda>acc m. verifyMatch m acc) ([], []) (sourceMatches sect) = (errs, srcs)"
    by (cases "foldl (\<lambda>acc m. verifyMatch m acc) ([], []) (sourceMatches sect)") auto
  from foldl_verifyMatch_range [of "([], [])" "sourceMatches sect"] f
  have "list_all rangeOk srcs" by simp
  with Some m f show ?thesis
    by (simp add: verifySourcesInAnswer_def Let_def sect_def)
qed

lemma verifySourcesInAnswer_valid:
  "sv_valid (verifySourcesInAnswer ans r) \<Longrightarrow> sv_sources (verifySourcesInAnswer ans r) \<noteq> []"
  by (auto simp: verifySourcesInAnswer_def Let_def split: option.splits prod.splits)

lemma parseResponse_toolCalls:
  "p_type (parseResponse c tcs) = TOOL_CALLS \<Longrightarrow> p_toolCalls (parseResponse c tcs) = tcs"
  by (auto simp: parseResponse_def Let_def split: option.splits list.splits prod.splits if_splits)

lemma parseResponse_error:
  "p_type (parseResponse c tcs) = ERROR \<Longrightarrow>
     p_error (parseResponse c tcs)
       = Some ''LLM response was neither a tool call nor a valid DONE answer''"
  by (auto simp: parseResponse_def Let_def split: option.splits list.splits prod.splits if_splits)

text \<open>
  The invariant of the main loop: a verified state carries citations that passed the range
  check, and an unverified one has no final answer yet.
\<close>

definition loopInvariant :: "('p, 's) AgentState \<Rightarrow> bool" where
  "loopInvariant st =
     ((if st_verified st then verifiedSources st \<noteq> [] \<and> list_all rangeOk (verifiedSources st)
       else finalAnswer st = None))"

lemma handleToolCalls_invariant:
  "handleToolCalls w config n parsed st0 = (f, st') \<Longrightarrow> loopInvariant st0 \<Longrightarrow> loopInvariant st'"
  unfolding handleToolCalls_def Let_def loopInvariant_def
  by (auto split: prod.splits option.splits dest!: runToolCalls_frame)

lemma handleDone_invariant:
  "handleDone config n parsed st0 = (f, st') \<Longrightarrow> loopInvariant st0 \<Longrightarrow> loopInvariant st'"
  using verifySourcesInAnswer_range verifySourcesInAnswer_valid
  unfolding handleDone_def Let_def loopInvariant_def
  by (auto split: if_splits)

lemma handleUnexpected_invariant:
  "handleUnexpected n parsed st0 = (f, st') \<Longrightarrow> loopInvariant st0 \<Longrightarrow> loopInvariant st'"
  unfolding handleUnexpected_def loopInvariant_def
  by auto

lemma loopInvariant_frame:
  "loopInvariant st \<Longrightarrow> finalAnswer st0 = finalAnswer st \<Longrightarrow> st_verified st0 = st_verified st
     \<Longrightarrow> verifiedSources st0 = verifiedSources st \<Longrightarrow> loopInvariant st0"
  by (simp add: loopInvariant_def)

lemma handleResponse_invariant:
  "handleResponse w config n response st0 = (f, st') \<Longrightarrow> loopInvariant st0 \<Longrightarrow> loopInvariant st'"
  unfolding handleResponse_def Let_def
  by (auto simp: loopInvariant_def split: if_splits
      dest: handleToolCalls_invariant handleDone_invariant handleUnexpected_invariant)

lemma loopBody_invariant:
  assumes "loopBody w config n st = (f, st')" and "loopInvariant st"
  shows "loopInvariant st'"
proof -
  define request where "request = \<lparr>req_messages = messages st,
    req_tools = getToolSchemas (toolRegistry w), req_toolChoice = Some ''auto''\<rparr>"
  obtain res p' where chat: "llmProvider config (provider st) request = (res, p')"
    by (cases "llmProvider config (provider st) request") auto
  define st0 where "st0 = st\<lparr>provider := p', calls := calls st @ [LoopChat n request]\<rparr>"
  have inv0: "loopInvariant st0"
    using assms(2) by (simp add: st0_def loopInvariant_def)
  show ?thesis
  proof (cases res)
    case (Inl m)
    with assms(1) chat have "st' = st0\<lparr>st_error := Some m, st_steps := st_steps st0 @ [errorStep n m]\<rparr>"
      by (simp add: loopBody_def Let_def request_def [symmetric] st0_def)
    with inv0 show ?thesis by (simp add: loopInvariant_def)
  next
    case (Inr response)
    with assms(1) chat have "handleResponse w config n response st0 = (f, st')"
      by (simp add: loopBody_def Let_def request_def [symmetric] st0_def)
    from handleResponse_invariant [OF this inv0] show ?thesis .
  qed
qed

text \<open>The number of steps a round adds, and the calls it makes.\<close>

definition toolCallCount :: "ChatResponse \<Rightarrow> nat" where
  "toolCallCount response = (case resp_toolCalls response of None \<Rightarrow> 0 | Some tcs \<Rightarrow> length tcs)"

lemma handleToolCalls_steps:
  assumes "handleToolCalls w config n parsed st0 = (f, st')"
  shows "length (st_steps st')
    \<le> length (st_steps st0) + (case p_toolCalls parsed of None \<Rightarrow> 0 | Some tcs \<Rightarrow> length tcs)"
proof -
  define st1 where "st1 = st0\<lparr>messages := messages st0
                   @ [\<lparr>role = Assistant,
                       content = (case p_rawContent parsed of None \<Rightarrow> [] | Some c \<Rightarrow> c),
                       toolCallId = None, toolCalls = p_toolCalls parsed\<rparr>]\<rparr>"
  define tcs where "tcs = (case p_toolCalls parsed of None \<Rightarrow> [] | Some tcs \<Rightarrow> tcs)"
  obtain r st2 where run: "runToolCalls w (maxToolOutputCharsOf config) n tcs st1 = (r, st2)"
    by (cases "runToolCalls w (maxToolOutputCharsOf config) n tcs st1") auto
  from runToolCalls_steps [OF run] have
    b: "length (st_steps st2) + (case r of None \<Rightarrow> 0 | Some m \<Rightarrow> 1) \<le> length (st_steps st0) + length tcs"
    by (simp add: st1_def)
  have l: "length tcs = (case p_toolCalls parsed of None \<Rightarrow> 0 | Some tcs \<Rightarrow> length tcs)"
    by (simp add: tcs_def split: option.splits)
  from assms run have "length (st_steps st') = length (st_steps st2) + (case r of None \<Rightarrow> 0 | Some m \<Rightarrow> 1)"
    by (auto simp: handleToolCalls_def Let_def st1_def [symmetric] tcs_def [symmetric]
        split: option.splits)
  with b l show ?thesis by simp
qed

lemma handleResponse_steps:
  assumes "handleResponse w config n response st0 = (f, st')"
    and "toolCallCount response \<le> k" and "1 \<le> k"
  shows "length (st_steps st') \<le> length (st_steps st0) + k"
proof -
  define parsed where "parsed = parseResponse (assistantText response) (resp_toolCalls response)"
  consider (err) "p_type parsed = ERROR" "st' = st0\<lparr>st_error := p_error parsed\<rparr>"
    | (tools) "p_type parsed = TOOL_CALLS" "handleToolCalls w config n parsed st0 = (f, st')"
    | (final) "handleDone config n parsed st0 = (f, st')"
    | (other) "handleUnexpected n parsed st0 = (f, st')"
    using assms(1) unfolding handleResponse_def Let_def parsed_def [symmetric]
    by (auto split: if_splits)
  then show ?thesis
  proof cases
    case err
    then show ?thesis by simp
  next
    case tools
    from parseResponse_toolCalls [OF tools(1) [unfolded parsed_def]]
    have "p_toolCalls parsed = resp_toolCalls response"
      by (simp add: parsed_def)
    with handleToolCalls_steps [OF tools(2)] assms(2) show ?thesis
      by (simp add: toolCallCount_def)
  next
    case final
    then show ?thesis
      using assms(3) by (auto simp: handleDone_def Let_def split: if_splits)
  next
    case other
    then show ?thesis
      using assms(3) by (auto simp: handleUnexpected_def)
  qed
qed

lemma handleResponse_calls:
  assumes "handleResponse w config n response st0 = (f, st')" and "1 \<le> n" and "n \<le> m"
  shows "\<exists>es. calls st' = calls st0 @ es \<and> list_all (loopEvent m) es"
proof -
  define parsed where "parsed = parseResponse (assistantText response) (resp_toolCalls response)"
  consider (err) "st' = st0\<lparr>st_error := p_error parsed\<rparr>"
    | (tools) "handleToolCalls w config n parsed st0 = (f, st')"
    | (final) "handleDone config n parsed st0 = (f, st')"
    | (other) "handleUnexpected n parsed st0 = (f, st')"
    using assms(1) unfolding handleResponse_def Let_def parsed_def [symmetric]
    by (auto split: if_splits)
  then show ?thesis
  proof cases
    case err
    then show ?thesis by simp
  next
    case tools
    define st1 where "st1 = st0\<lparr>messages := messages st0
                   @ [\<lparr>role = Assistant,
                       content = (case p_rawContent parsed of None \<Rightarrow> [] | Some c \<Rightarrow> c),
                       toolCallId = None, toolCalls = p_toolCalls parsed\<rparr>]\<rparr>"
    define tcs where "tcs = (case p_toolCalls parsed of None \<Rightarrow> [] | Some tcs \<Rightarrow> tcs)"
    obtain r st2 where run: "runToolCalls w (maxToolOutputCharsOf config) n tcs st1 = (r, st2)"
      by (cases "runToolCalls w (maxToolOutputCharsOf config) n tcs st1") auto
    from runToolCalls_calls [OF run assms(2,3)] obtain es where
      es: "calls st2 = calls st0 @ es" "list_all (loopEvent m) es"
      by (auto simp: st1_def)
    from tools run have "calls st' = calls st2"
      by (auto simp: handleToolCalls_def Let_def st1_def [symmetric] tcs_def [symmetric]
          split: option.splits)
    with es show ?thesis by auto
  next
    case final
    then show ?thesis
      by (auto simp: handleDone_def Let_def split: if_splits)
  next
    case other
    then show ?thesis
      by (auto simp: handleUnexpected_def)
  qed
qed

lemma loopBody_cases:
  assumes "loopBody w config n st = (f, st')"
  obtains (throw) m p' where "f = Break"
      "st' = st\<lparr>provider := p',
                  calls := calls st @ [LoopChat n \<lparr>req_messages = messages st,
                     req_tools = getToolSchemas (toolRegistry w), req_toolChoice = Some ''auto''\<rparr>],
                  st_error := Some m, st_steps := st_steps st @ [errorStep n m]\<rparr>"
    | (response) response p' where
      "llmProvider config (provider st) \<lparr>req_messages = messages st,
          req_tools = getToolSchemas (toolRegistry w), req_toolChoice = Some ''auto''\<rparr>
        = (Inr response, p')"
      "handleResponse w config n response
         (st\<lparr>provider := p',
             calls := calls st @ [LoopChat n \<lparr>req_messages = messages st,
                req_tools = getToolSchemas (toolRegistry w), req_toolChoice = Some ''auto''\<rparr>]\<rparr>)
        = (f, st')"
  using assms unfolding loopBody_def Let_def
  by (auto split: prod.splits sum.splits)

lemma loopBody_steps:
  assumes "loopBody w config n st = (f, st')"
    and "\<forall>p request response p'. llmProvider config p request = (Inr response, p')
           \<longrightarrow> toolCallCount response \<le> k"
    and "1 \<le> k"
  shows "length (st_steps st') \<le> length (st_steps st) + k"
  using assms(1)
proof (cases rule: loopBody_cases)
  case (throw m p')
  then show ?thesis using assms(3) by simp
next
  case (response response p')
  from assms(2) response(1) have "toolCallCount response \<le> k" by blast
  from handleResponse_steps [OF response(2) this assms(3)] show ?thesis by simp
qed

lemma loopBody_calls:
  assumes "loopBody w config n st = (f, st')" and "1 \<le> n" and "n \<le> m"
  shows "\<exists>es. calls st' = calls st @ es \<and> list_all (loopEvent m) es"
  using assms(1)
proof (cases rule: loopBody_cases)
  case (throw m' p')
  then show ?thesis using assms(2,3) by simp
next
  case (response response p')
  from handleResponse_calls [OF response(2) assms(2,3)] obtain es where
    "calls st' = (calls st @ [LoopChat n \<lparr>req_messages = messages st,
        req_tools = getToolSchemas (toolRegistry w), req_toolChoice = Some ''auto''\<rparr>]) @ es"
    "list_all (loopEvent m) es"
    by auto
  then show ?thesis
    using assms(2,3)
    by (intro exI [of _ "LoopChat n \<lparr>req_messages = messages st,
        req_tools = getToolSchemas (toolRegistry w), req_toolChoice = Some ''auto''\<rparr> # es"]) simp
qed

text \<open>The main loop: unfolding one round, and what holds when it is left.\<close>

lemma agentLoop_exit: "\<not> n < maxStepsOf config \<Longrightarrow> agentLoop w config n st = (n, st)"
  by (subst agentLoop.simps) simp

lemma agentLoop_Break:
  "n < maxStepsOf config \<Longrightarrow> loopBody w config (n + 1) st = (Break, st')
     \<Longrightarrow> agentLoop w config n st = (n + 1, st')"
  by (subst agentLoop.simps) simp

lemma agentLoop_Continue:
  "n < maxStepsOf config \<Longrightarrow> loopBody w config (n + 1) st = (Continue, st')
     \<Longrightarrow> agentLoop w config n st = agentLoop w config (n + 1) st'"
  by (subst agentLoop.simps) simp

lemma agentLoop_invariant:
  "loopInvariant st \<Longrightarrow> loopInvariant (snd (agentLoop w config n st))"
proof (induction w config n st rule: agentLoop.induct)
  case (1 w config n st)
  show ?case
  proof (cases "n < maxStepsOf config")
    case False
    with 1(2) show ?thesis by (simp add: agentLoop_exit)
  next
    case True
    obtain f st' where body: "loopBody w config (n + 1) st = (f, st')"
      by (cases "loopBody w config (n + 1) st") auto
    from loopBody_invariant [OF body 1(2)] have inv: "loopInvariant st'" .
    show ?thesis
    proof (cases f)
      case Break
      with True body inv show ?thesis by (simp add: agentLoop_Break)
    next
      case Continue
      with True body have "agentLoop w config n st = agentLoop w config (n + 1) st'"
        by (simp add: agentLoop_Continue)
      with 1(1) [OF True body [symmetric] Continue inv] show ?thesis by simp
    qed
  qed
qed

lemma agentLoop_steps:
  assumes "\<forall>p request response p'. llmProvider config p request = (Inr response, p')
           \<longrightarrow> toolCallCount response \<le> k"
    and "1 \<le> k"
  shows "length (st_steps (snd (agentLoop w config n st)))
    \<le> length (st_steps st) + (maxStepsOf config - n) * k"
  using assms
proof (induction w config n st rule: agentLoop.induct)
  case (1 w config n st)
  show ?case
  proof (cases "n < maxStepsOf config")
    case False
    then show ?thesis by (simp add: agentLoop_exit)
  next
    case True
    obtain f st' where body: "loopBody w config (n + 1) st = (f, st')"
      by (cases "loopBody w config (n + 1) st") auto
    from loopBody_steps [OF body 1(2,3)] have b: "length (st_steps st') \<le> length (st_steps st) + k" .
    from True have "maxStepsOf config - n = Suc (maxStepsOf config - (n + 1))"
      by simp
    then have split: "(maxStepsOf config - n) * k = k + (maxStepsOf config - (n + 1)) * k"
      by (simp only: mult_Suc)
    show ?thesis
    proof (cases f)
      case Break
      with True body b split show ?thesis by (simp add: agentLoop_Break)
    next
      case Continue
      with True body have "agentLoop w config n st = agentLoop w config (n + 1) st'"
        by (simp add: agentLoop_Continue)
      with 1(1) [OF True body [symmetric] Continue 1(2,3)] b split show ?thesis by simp
    qed
  qed
qed

lemma agentLoop_calls:
  "\<exists>es. calls (snd (agentLoop w config n st)) = calls st @ es
     \<and> list_all (loopEvent (maxStepsOf config)) es"
proof (induction w config n st rule: agentLoop.induct)
  case (1 w config n st)
  show ?case
  proof (cases "n < maxStepsOf config")
    case False
    then show ?thesis by (simp add: agentLoop_exit)
  next
    case True
    obtain f st' where body: "loopBody w config (n + 1) st = (f, st')"
      by (cases "loopBody w config (n + 1) st") auto
    from True have "1 \<le> n + 1" "n + 1 \<le> maxStepsOf config" by simp_all
    from loopBody_calls [OF body this] obtain es where
      es: "calls st' = calls st @ es" "list_all (loopEvent (maxStepsOf config)) es"
      by blast
    show ?thesis
    proof (cases f)
      case Break
      with True body es show ?thesis by (simp add: agentLoop_Break)
    next
      case Continue
      with True body have eq: "agentLoop w config n st = agentLoop w config (n + 1) st'"
        by (simp add: agentLoop_Continue)
      from 1 [OF True body [symmetric] Continue] obtain es' where
        "calls (snd (agentLoop w config (n + 1) st')) = calls st' @ es'"
        "list_all (loopEvent (maxStepsOf config)) es'"
        by blast
      with es eq show ?thesis
        by (intro exI [of _ "es @ es'"]) simp
    qed
  qed
qed

lemma initialState_invariant: "loopInvariant (initialState w config p0)"
  by (simp add: initialState_def loopInvariant_def)

text \<open>The forced termination.\<close>

lemma forcedTermination_skip:
  "st_verified st \<or> truthy (st_error st) \<or> n < maxStepsOf config
     \<Longrightarrow> forcedTermination config (n, st) = st"
  by (auto simp: forcedTermination_def)

lemma forcedTermination_steps: "st_steps (forcedTermination config (n, st)) = st_steps st"
  unfolding forcedTermination_def Let_def
  by (simp split: prod.splits sum.splits)

lemma forcedTermination_calls:
  "\<exists>F. calls (forcedTermination config (n, st)) = calls st @ F
     \<and> (F = [] \<or> (\<exists>request. F = [ForcedChat request] \<and> req_tools request = []
                      \<and> maxStepsOf config \<le> n))"
  unfolding forcedTermination_def Let_def
  by (simp split: prod.splits sum.splits)

lemma forcedTermination_sources:
  assumes "loopInvariant st" and "st_verified (forcedTermination config (n, st))"
  shows "verifiedSources (forcedTermination config (n, st)) \<noteq> []
    \<and> list_all rangeOk (verifiedSources (forcedTermination config (n, st)))"
  using assms verifySourcesInAnswer_range verifySourcesInAnswer_valid
  unfolding forcedTermination_def Let_def loopInvariant_def
  by (auto split: prod.splits sum.splits if_splits)

section \<open>Properties of the agent loop\<close>

text \<open>
  What a verified run does guarantee, from the checks of \<open>verifySourcesInAnswer\<close>: the
  returned list of citations is not empty and every citation in it satisfies
  \<open>1 \<le> startLine \<le> endLine\<close>.
\<close>

lemma verified_sources_in_range:
  assumes "verified (runAgent w config p0)"
  shows "sources (runAgent w config p0) \<noteq> []
    \<and> list_all rangeOk (sources (runAgent w config p0))"
proof -
  obtain n st where loopEnd: "agentLoop w config 0 (initialState w config p0) = (n, st)"
    by (cases "agentLoop w config 0 (initialState w config p0)") auto
  have "loopInvariant (snd (agentLoop w config 0 (initialState w config p0)))"
    by (rule agentLoop_invariant [OF initialState_invariant])
  with loopEnd have inv: "loopInvariant st" by simp
  from assms loopEnd have "st_verified (forcedTermination config (n, st))"
    by (simp add: runAgent_def agentRun_def Let_def)
  from forcedTermination_sources [OF inv this] loopEnd show ?thesis
    by (simp add: runAgent_def agentRun_def Let_def)
qed

text \<open>
  Claim C1 says that every citation of a verified run names a file that exists under the
  repository root, with \<open>endLine\<close> at most the number of its lines. The verifier of the
  loop, \<open>verifySourcesInAnswer\<close>, never reads the file system (its comment: the file existence
  check is optional for now; its parameter \<open>repoRoot\<close> is unused). In the repository
  \<open>/home/repo\<close>, which has no file \<open>missing.ts\<close> and whose \<open>foo.ts\<close> has three lines, an answer
  that cites \<open>missing.ts\<close>, lines 1 to 2, is returned with \<open>verified = true\<close>, and so is an
  answer that cites \<open>foo.ts\<close>, lines 1 to 99. The sibling verifier \<open>verifyMarkdownSources\<close>
  rejects both answers: the file does not exist, the end line exceeds the file length.
\<close>

theorem verified_missing_file:
  "(let r = runAgent exampleWorld (exampleConfig [textResponse doneMissing] 3) 0;
        r' = runAgent exampleWorld (exampleConfig [textResponse doneBeyond] 3) 0
    in verified r
       \<and> sources r = [\<lparr>path = ''missing.ts'', startLine = 1, endLine = 2\<rparr>]
       \<and> \<not> existsSync (env_fs exampleEnv) (path_join ''/home/repo'' ''missing.ts'')
       \<and> verifyMarkdownSources exampleEnv doneMissing ''/home/repo''
           = \<lparr>valid = False, errors = [''Source missing.ts: file does not exist'']\<rparr>
       \<and> verified r'
       \<and> sources r' = [\<lparr>path = ''foo.ts'', startLine = 1, endLine = 99\<rparr>]
       \<and> readFileSync (env_fs exampleEnv) (path_join ''/home/repo'' ''foo.ts'')
           = Inr (''a'' @ [LF] @ ''b'' @ [LF] @ ''c'')
       \<and> verifyMarkdownSources exampleEnv doneBeyond ''/home/repo''
           = \<lparr>valid = False, errors = [''Source foo.ts: endLine 99 exceeds file length 3'']\<rparr>)"
  by code_simp

text \<open>
  Claim C5, as it is stated, fails: the loop logs one step for every tool call it executes,
  so one response with three tool calls gives three steps within a budget of one.
\<close>

theorem steps_bound_counterexample:
  "(let r = runAgent exampleWorld
              (exampleConfig [toolCallsResponse [callFrobnicate ''1'', callFrobnicate ''2'',
                                                 callFrobnicate ''3'']] 1) 0
    in length (steps r) = 3 \<and> \<not> length (steps r) \<le> 1 + 1)"
  by code_simp

text \<open>
  Claim C5, amended. When no response of the provider carries more than \<open>k\<close> tool calls,
  for some \<open>k \<ge> 1\<close>, the returned steps list has at most \<open>maxSteps * k\<close> entries: at most
  \<open>maxSteps\<close> when the model calls one tool at a time. The forced termination adds no step.
\<close>

theorem steps_bound:
  assumes "\<forall>p request response p'. llmProvider config p request = (Inr response, p')
           \<longrightarrow> toolCallCount response \<le> k"
    and "1 \<le> k"
  shows "length (steps (runAgent w config p0)) \<le> maxStepsOf config * k"
proof -
  obtain n st where loopEnd: "agentLoop w config 0 (initialState w config p0) = (n, st)"
    by (cases "agentLoop w config 0 (initialState w config p0)") auto
  have "length (st_steps (snd (agentLoop w config 0 (initialState w config p0))))
      \<le> length (st_steps (initialState w config p0)) + (maxStepsOf config - 0) * k"
    by (rule agentLoop_steps [OF assms])
  with loopEnd have "length (st_steps st) \<le> maxStepsOf config * k"
    by (simp add: initialState_def)
  with loopEnd show ?thesis
    by (simp add: runAgent_def agentRun_def Let_def forcedTermination_steps)
qed

definition oneCallScript :: "ChatResponse list" where
  "oneCallScript =
     [toolCallsResponse [callFrobnicate ''1''], toolCallsResponse [callFrobnicate ''2''],
      \<lparr>assistantText = None, resp_toolCalls = None\<rparr>]"

lemma scripted_count:
  assumes "list_all (\<lambda>response. toolCallCount response \<le> k) script"
  shows "\<forall>p request response p'. scripted script p request = (Inr response, p')
           \<longrightarrow> toolCallCount response \<le> k"
  using assms by (auto simp: scripted_def list_all_length split: if_splits)

theorem steps_bound_witness:
  "length (steps (runAgent exampleWorld (exampleConfig oneCallScript 2) 0)) \<le> 2 * 1"
proof -
  have "list_all (\<lambda>response. toolCallCount response \<le> 1) oneCallScript"
    by code_simp
  from scripted_count [OF this]
  have h: "\<forall>p request response p'.
      llmProvider (exampleConfig oneCallScript 2) p request = (Inr response, p')
        \<longrightarrow> toolCallCount response \<le> 1"
    by (simp add: exampleConfig_def)
  have m: "maxStepsOf (exampleConfig oneCallScript 2) = 2"
    by (simp add: exampleConfig_def maxStepsOf_def)
  from steps_bound [OF h, where w = exampleWorld and ?p0.0 = 0] m show ?thesis by simp
qed

text \<open>
  Claim C8, as it is stated, fails: the error names the budget, \<^verbatim>\<open>Max steps (2) exceeded\<close>
  for a budget of 2.
\<close>

theorem max_steps_error_counterexample:
  "(let r = runAgent exampleWorld (exampleConfig oneCallScript 2) 0
    in \<not> verified r \<and> run_error r = Some ''Max steps (2) exceeded''
       \<and> run_error r \<noteq> Some ''Max steps exceeded'')"
  by code_simp

lemma fallbackAnswer_sections:
  "str_includes (fallbackAnswer n evidence) ''## Sources''"
  "str_includes (fallbackAnswer n evidence) ''(No verified sources available)''"
proof -
  define pre where "pre = ''Unable to fully answer the question within '' @ string_of_nat n
     @ '' steps.'' @ [LF, LF] @ ''## Partial Information'' @ [LF, LF]
     @ (if join [LF] evidence = [] then ''No evidence gathered.'' else join [LF] evidence)
     @ [LF, LF]"
  have f: "fallbackAnswer n evidence
    = pre @ ''## Sources'' @ ([LF, LF] @ ''(No verified sources available)'')"
    by (simp add: fallbackAnswer_def pre_def)
  show "str_includes (fallbackAnswer n evidence) ''## Sources''"
    unfolding f by (rule str_includes_append)
  have g: "fallbackAnswer n evidence
    = (pre @ ''## Sources'' @ [LF, LF]) @ ''(No verified sources available)'' @ []"
    by (simp add: fallbackAnswer_def pre_def)
  show "str_includes (fallbackAnswer n evidence) ''(No verified sources available)''"
    unfolding g by (rule str_includes_append)
qed

text \<open>
  Claim C8, amended. If the loop is left with the budget used up, no verified answer and
  no error, and the forced-termination call throws or returns no text, then the run
  returns \<open>verified = false\<close>, the error \<^verbatim>\<open>Max steps (N) exceeded\<close> where \<open>N\<close> is the
  budget, and the fallback answer, which contains \<^verbatim>\<open>## Sources\<close> and
  \<^verbatim>\<open>(No verified sources available)\<close>.
\<close>

theorem forced_fallback:
  fixes w :: "('j, 'a, 'd, 's) World" and config :: "('p, 's) AgentLoopConfig" and p0 :: 'p
  defines "loopEnd \<equiv> agentLoop w config 0 (initialState w config p0)"
  defines "request \<equiv>
     \<lparr>req_messages = messages (snd loopEnd)
        @ [\<lparr>role = User,
            content = generateForcedTerminationPrompt (maxStepsOf config)
                        (gatheredEvidence (snd loopEnd)),
            toolCallId = None, toolCalls = None\<rparr>],
      req_tools = [], req_toolChoice = None\<rparr>"
  assumes "maxStepsOf config \<le> fst loopEnd"
    and "\<not> st_verified (snd loopEnd)"
    and "\<not> truthy (st_error (snd loopEnd))"
    and "case fst (llmProvider config (provider (snd loopEnd)) request) of
           Inl m \<Rightarrow> True | Inr response \<Rightarrow> \<not> truthy (assistantText response)"
  shows "\<not> verified (runAgent w config p0)
    \<and> run_error (runAgent w config p0)
        = Some (''Max steps ('' @ string_of_nat (maxStepsOf config) @ '') exceeded'')
    \<and> answerMd (runAgent w config p0)
        = fallbackAnswer (maxStepsOf config) (gatheredEvidence (snd loopEnd))
    \<and> str_includes (answerMd (runAgent w config p0)) ''## Sources''
    \<and> str_includes (answerMd (runAgent w config p0)) ''(No verified sources available)''"
proof -
  obtain n st where le: "loopEnd = (n, st)"
    by (cases loopEnd) auto
  have "loopInvariant (snd (agentLoop w config 0 (initialState w config p0)))"
    by (rule agentLoop_invariant [OF initialState_invariant])
  with le have "loopInvariant st" by (simp add: loopEnd_def)
  with assms(4) le have fa: "finalAnswer st = None"
    by (simp add: loopInvariant_def)
  obtain res p' where chat: "llmProvider config (provider st) request = (res, p')"
    by (cases "llmProvider config (provider st) request") auto
  have req: "request = \<lparr>req_messages = messages st
        @ [\<lparr>role = User,
            content = generateForcedTerminationPrompt (maxStepsOf config) (gatheredEvidence st),
            toolCallId = None, toolCalls = None\<rparr>],
      req_tools = [], req_toolChoice = None\<rparr>"
    using le by (simp add: request_def)
  define st1 where "st1 = st\<lparr>messages := messages st
        @ [\<lparr>role = User,
            content = generateForcedTerminationPrompt (maxStepsOf config) (gatheredEvidence st),
            toolCallId = None, toolCalls = None\<rparr>]\<rparr>"
  define final where "final = (st1\<lparr>provider := p', calls := calls st1 @ [ForcedChat request]\<rparr>)
      \<lparr>finalAnswer := Some (fallbackAnswer (maxStepsOf config) (gatheredEvidence st)),
       st_error := Some (''Max steps ('' @ string_of_nat (maxStepsOf config) @ '') exceeded'')\<rparr>"
  have "forcedTermination config (n, st) = final"
  proof (cases res)
    case (Inl m)
    with assms(3-5) le chat fa show ?thesis
      unfolding forcedTermination_def Let_def req [symmetric] final_def st1_def
      by (simp add: truthy_def req)
  next
    case (Inr response)
    with assms(6) le chat have "\<not> truthy (assistantText response)"
      by simp
    with Inr assms(3-5) le chat fa show ?thesis
      unfolding forcedTermination_def Let_def req [symmetric] final_def st1_def
      by (simp add: truthy_def req)
  qed
  then have r: "runAgent w config p0
    = \<lparr>answerMd = fallbackAnswer (maxStepsOf config) (gatheredEvidence st),
       steps = st_steps st, sources = verifiedSources st, verified = st_verified st,
       run_error = Some (''Max steps ('' @ string_of_nat (maxStepsOf config) @ '') exceeded'')\<rparr>"
    using le by (simp add: runAgent_def agentRun_def Let_def loopEnd_def [symmetric] final_def st1_def)
  show ?thesis
    using assms(4) le fallbackAnswer_sections [of "maxStepsOf config" "gatheredEvidence st"]
    by (simp add: r)
qed

theorem forced_fallback_witness:
  "\<not> verified (runAgent exampleWorld (exampleConfig oneCallScript 2) 0)
   \<and> run_error (runAgent exampleWorld (exampleConfig oneCallScript 2) 0)
       = Some (''Max steps ('' @ string_of_nat (maxStepsOf (exampleConfig oneCallScript 2))
               @ '') exceeded'')
   \<and> str_includes (answerMd (runAgent exampleWorld (exampleConfig oneCallScript 2) 0))
         ''## Sources''
   \<and> str_includes (answerMd (runAgent exampleWorld (exampleConfig oneCallScript 2) 0))
         ''(No verified sources available)''"
proof -
  let ?c = "exampleConfig oneCallScript 2"
  let ?e = "agentLoop exampleWorld ?c 0 (initialState exampleWorld ?c 0)"
  have h1: "maxStepsOf ?c \<le> fst ?e" by code_simp
  have h2: "\<not> st_verified (snd ?e)" by code_simp
  have h3: "\<not> truthy (st_error (snd ?e))" by code_simp
  have h4: "case fst (llmProvider ?c (provider (snd ?e))
               \<lparr>req_messages = messages (snd ?e)
                  @ [\<lparr>role = User,
                      content = generateForcedTerminationPrompt (maxStepsOf ?c)
                                  (gatheredEvidence (snd ?e)),
                      toolCallId = None, toolCalls = None\<rparr>],
                req_tools = [], req_toolChoice = None\<rparr>) of
           Inl m \<Rightarrow> True | Inr response \<Rightarrow> \<not> truthy (assistantText response)"
    by code_simp
  from forced_fallback [OF h1 h2 h3 h4] show ?thesis by blast
qed

text \<open>
  Claim C9, as it is stated, fails. A response that is neither a tool call nor an answer is
  classified as an error, and the loop breaks on it: the run below has a budget of three
  steps, logs no step, makes one model call and returns the classifier's error.
\<close>

theorem unclear_response_counterexample:
  "(let st = agentRun exampleWorld (exampleConfig [textResponse ''I think it is 42.''] 3) 0
    in p_type (parseResponse (Some ''I think it is 42.'') None) = ERROR
       \<and> st_steps st = [] \<and> length (calls st) = 1
       \<and> st_error st = Some ''LLM response was neither a tool call nor a valid DONE answer'')"
  by code_simp

text \<open>
  Claim C9, amended. When a response of the loop is classified as neither tool calls nor
  an answer, the loop is left at once: the error is set to the classifier's message, no
  step is logged, and no further call, of the model or of a tool, is made, the forced
  termination included.
\<close>

theorem unclear_response_stops:
  fixes w :: "('j, 'a, 'd, 's) World" and config :: "('p, 's) AgentLoopConfig"
  assumes "n < maxStepsOf config"
    and "llmProvider config (provider st)
           \<lparr>req_messages = messages st, req_tools = getToolSchemas (toolRegistry w),
            req_toolChoice = Some ''auto''\<rparr> = (Inr response, p')"
    and "p_type (parseResponse (assistantText response) (resp_toolCalls response)) = ERROR"
  shows "forcedTermination config (agentLoop w config n st)
    = st\<lparr>provider := p',
         calls := calls st @ [LoopChat (n + 1) \<lparr>req_messages = messages st,
            req_tools = getToolSchemas (toolRegistry w), req_toolChoice = Some ''auto''\<rparr>],
         st_error := Some ''LLM response was neither a tool call nor a valid DONE answer''\<rparr>"
proof -
  define st' where "st' = st\<lparr>provider := p',
         calls := calls st @ [LoopChat (n + 1) \<lparr>req_messages = messages st,
            req_tools = getToolSchemas (toolRegistry w), req_toolChoice = Some ''auto''\<rparr>],
         st_error := Some ''LLM response was neither a tool call nor a valid DONE answer''\<rparr>"
  from assms(2,3) parseResponse_error [OF assms(3)]
  have "loopBody w config (n + 1) st = (Break, st')"
    by (simp add: loopBody_def handleResponse_def Let_def st'_def)
  from agentLoop_Break [OF assms(1) this] have "agentLoop w config n st = (n + 1, st')" .
  moreover have "truthy (st_error st')"
    by (simp add: st'_def truthy_def)
  ultimately show ?thesis
    unfolding st'_def [symmetric] by (simp add: forcedTermination_skip)
qed

theorem unclear_response_stops_witness:
  "agentRun exampleWorld (exampleConfig [textResponse ''I think it is 42.''] 3) 0
   = (initialState exampleWorld (exampleConfig [textResponse ''I think it is 42.''] 3) 0)
       \<lparr>provider := 1,
        calls := [LoopChat 1
          \<lparr>req_messages =
             messages (initialState exampleWorld
                         (exampleConfig [textResponse ''I think it is 42.''] 3) 0),
           req_tools = getToolSchemas exampleRegistry, req_toolChoice = Some ''auto''\<rparr>],
        st_error := Some ''LLM response was neither a tool call nor a valid DONE answer''\<rparr>"
proof -
  let ?c = "exampleConfig [textResponse ''I think it is 42.''] 3"
  let ?s = "initialState exampleWorld ?c 0"
  have h1: "0 < maxStepsOf ?c" by code_simp
  have h2: "llmProvider ?c (provider ?s)
           \<lparr>req_messages = messages ?s, req_tools = getToolSchemas (toolRegistry exampleWorld),
            req_toolChoice = Some ''auto''\<rparr> = (Inr (textResponse ''I think it is 42.''), 1)"
    by (simp add: exampleConfig_def scripted_def initialState_def)
  have h3: "p_type (parseResponse (assistantText (textResponse ''I think it is 42.''))
                      (resp_toolCalls (textResponse ''I think it is 42.''))) = ERROR"
    by code_simp
  from unclear_response_stops [OF h1 h2 h3] show ?thesis
    by (simp add: agentRun_def initialState_def exampleWorld_def)
qed

text \<open>
  Claim C10. The calls of a run are the calls of the loop, each a model call or a tool
  execution at a step from 1 to \<open>maxSteps\<close>, followed by at most one more call: the model
  call of the forced termination, made only when the budget is used up, with an empty tool
  list. No tool is executed after it.
\<close>

theorem forced_call_without_tools:
  "\<exists>L F. calls (agentRun w config p0) = L @ F
     \<and> list_all (loopEvent (maxStepsOf config)) L
     \<and> (F = [] \<or> (\<exists>request. F = [ForcedChat request] \<and> req_tools request = []
                      \<and> maxStepsOf config \<le> fst (agentLoop w config 0 (initialState w config p0))))"
proof -
  obtain n st where loopEnd: "agentLoop w config 0 (initialState w config p0) = (n, st)"
    by (cases "agentLoop w config 0 (initialState w config p0)") auto
  have "\<exists>es. calls (snd (agentLoop w config 0 (initialState w config p0)))
      = calls (initialState w config p0) @ es \<and> list_all (loopEvent (maxStepsOf config)) es"
    by (rule agentLoop_calls)
  with loopEnd obtain L where L: "calls st = L" "list_all (loopEvent (maxStepsOf config)) L"
    by (auto simp: initialState_def)
  have "\<exists>F. calls (forcedTermination config (n, st)) = calls st @ F
     \<and> (F = [] \<or> (\<exists>request. F = [ForcedChat request] \<and> req_tools request = []
                      \<and> maxStepsOf config \<le> n))"
    by (rule forcedTermination_calls)
  then obtain F where F: "calls (forcedTermination config (n, st)) = calls st @ F"
    "F = [] \<or> (\<exists>request. F = [ForcedChat request] \<and> req_tools request = []
                      \<and> maxStepsOf config \<le> n)"
    by blast
  from L F loopEnd show ?thesis
    by (intro exI [of _ L] exI [of _ F]) (simp add: agentRun_def)
qed

theorem forced_call_without_tools_witness:
  "(\<exists>L F. calls (agentRun exampleWorld (exampleConfig oneCallScript 2) 0) = L @ F
     \<and> list_all (loopEvent 2) L
     \<and> (F = [] \<or> (\<exists>request. F = [ForcedChat request] \<and> req_tools request = []
            \<and> 2 \<le> fst (agentLoop exampleWorld (exampleConfig oneCallScript 2) 0
                           (initialState exampleWorld (exampleConfig oneCallScript 2) 0)))))
   \<and> map (\<lambda>e. case e of LoopChat n request \<Rightarrow> (''model'', n, length (req_tools request))
                       | ToolExec n tn aj \<Rightarrow> (''tool'', n, 0)
                       | ForcedChat request \<Rightarrow> (''forced'', 0, length (req_tools request)))
         (calls (agentRun exampleWorld (exampleConfig oneCallScript 2) 0))
       = [(''model'', 1, 2), (''tool'', 1, 0), (''model'', 2, 2), (''tool'', 2, 0), (''forced'', 0, 0)]"
proof -
  have m: "maxStepsOf (exampleConfig oneCallScript 2) = 2"
    by (simp add: exampleConfig_def maxStepsOf_def)
  have e: "map (\<lambda>e. case e of LoopChat n request \<Rightarrow> (''model'', n, length (req_tools request))
                       | ToolExec n tn aj \<Rightarrow> (''tool'', n, 0)
                       | ForcedChat request \<Rightarrow> (''forced'', 0, length (req_tools request)))
         (calls (agentRun exampleWorld (exampleConfig oneCallScript 2) 0))
       = [(''model'', 1, 2), (''tool'', 1, 0), (''model'', 2, 2), (''tool'', 2, 0), (''forced'', 0, 0)]"
    by code_simp
  from forced_call_without_tools [of exampleWorld "exampleConfig oneCallScript 2" 0] m e
  show ?thesis by simp
qed

end
